theory Spec2Isabelle
  imports Main
begin

unbundle bit_operations_syntax

section \<open>Data model of \<^verbatim>\<open>gimpatlas.py\<close>\<close>

text \<open>
  \<^verbatim>\<open>class Point\<close>: a pair of Python integers. Its \<^verbatim>\<open>__cmp__\<close> returns
  \<^verbatim>\<open>self.x - other.x\<close>, so two points compare by their x alone; the class defines neither
  \<^verbatim>\<open>__nonzero__\<close> nor \<^verbatim>\<open>__len__\<close>, so every instance is truthy.
\<close>

datatype Point = Point (point_x: int) (point_y: int)

definition Point_cmp :: "Point \<Rightarrow> Point \<Rightarrow> int" where
  "Point_cmp self other = point_x self - point_x other"

datatype error = IndexError | OutOfSpaceError

text \<open>
  \<^verbatim>\<open>class CygonRectanglePacker(RectanglePacker)\<close>: the two area bounds, set by the
  constructor and never assigned again, and the list of height slices.
\<close>

record CygonRectanglePacker =
  packingAreaWidth :: int
  packingAreaHeight :: int
  heightSlices :: "Point list"

text \<open>\<^verbatim>\<open>__init__\<close>: a single slice of height 0 starting at x = 0.\<close>

definition init :: "int \<Rightarrow> int \<Rightarrow> CygonRectanglePacker" where
  "init w h = \<lparr>packingAreaWidth = w, packingAreaHeight = h, heightSlices = [Point 0 0]\<rparr>"

section \<open>Ordered search\<close>

text \<open>
  \<^verbatim>\<open>bisect.bisect_left(a, x, lo, hi)\<close> of the Python standard library: the loop
  \<^verbatim>\<open>while lo < hi: mid = (lo+hi)//2; if a[mid] < x: lo = mid+1 else: hi = mid\<close>.
  Both call sites of the program pass \<^verbatim>\<open>hi = len(a)\<close>, so \<^verbatim>\<open>a[mid]\<close> is
  always in range.
\<close>

function bisect_left :: "Point list \<Rightarrow> Point \<Rightarrow> nat \<Rightarrow> nat \<Rightarrow> nat" where
  "bisect_left a v lo hi =
     (if lo < hi then
        (let mid = (lo + hi) div 2
         in if Point_cmp (a ! mid) v < 0 then bisect_left a v (mid + 1) hi
            else bisect_left a v lo mid)
      else lo)"
  by pat_completeness auto
termination
  by (relation "measure (\<lambda>(a, v, lo, hi). hi - lo)") auto

declare bisect_left.simps [simp del]

text \<open>
  \<^verbatim>\<open>binary_search(a, x, lo, hi)\<close>, with \<^verbatim>\<open>hi = None\<close> standing for
  \<^verbatim>\<open>len(a)\<close>. The second component is \<^verbatim>\<open>pos != hi and a[pos] == x\<close>; the read
  \<^verbatim>\<open>a[pos]\<close> raises when \<open>pos\<close> is past the end.
\<close>

definition binary_search :: "Point list \<Rightarrow> Point \<Rightarrow> nat \<Rightarrow> nat option \<Rightarrow> error + (nat \<times> bool)" where
  "binary_search a v lo hi_opt =
     (let hi = (case hi_opt of None \<Rightarrow> length a | Some h \<Rightarrow> h);
          pos = bisect_left a v lo hi
      in if pos \<noteq> hi then
           (if pos < length a then Inr (pos, Point_cmp (a ! pos) v = 0) else Inl IndexError)
         else Inr (pos, False))"

section \<open>Search for the best placement\<close>

text \<open>
  The \<^verbatim>\<open>for index in range(leftSliceIndex + 1, rightSliceIndex)\<close> loop that finds the
  highest slice under the rectangle. It runs under the outer loop's condition
  \<^verbatim>\<open>rightSliceIndex <= len(self.heightSlices)\<close>, so every index it reads is in range.
\<close>

definition highest_slice :: "Point list \<Rightarrow> nat \<Rightarrow> nat \<Rightarrow> int" where
  "highest_slice slices leftSliceIndex rightSliceIndex =
     fold (\<lambda>index highest. if point_y (slices ! index) > highest then point_y (slices ! index) else highest)
          [leftSliceIndex + 1 ..< rightSliceIndex]
          (point_y (slices ! leftSliceIndex))"

text \<open>The inner \<^verbatim>\<open>while rightSliceIndex <= len(self.heightSlices)\<close> loop.\<close>

function advance_right :: "Point list \<Rightarrow> int \<Rightarrow> int \<Rightarrow> nat \<Rightarrow> nat" where
  "advance_right slices areaWidth rightRectangleEnd rightSliceIndex =
     (if rightSliceIndex \<le> length slices then
        (let rightSliceStart =
               (if rightSliceIndex = length slices then areaWidth
                else point_x (slices ! rightSliceIndex))
         in if rightSliceStart > rightRectangleEnd then rightSliceIndex
            else advance_right slices areaWidth rightRectangleEnd (rightSliceIndex + 1))
      else rightSliceIndex)"
  by pat_completeness auto
termination
  by (relation "measure (\<lambda>(slices, areaWidth, rightRectangleEnd, rightSliceIndex).
        Suc (length slices) - rightSliceIndex)") auto

declare advance_right.simps [simp del]

text \<open>
  The body of the outer loop up to the update of the best candidate: the candidate at
  \<open>leftSliceIndex\<close> is kept when \<^verbatim>\<open>highest + rectangleHeight < self.packingAreaHeight\<close>
  and its score \<open>highest\<close> is below \<open>bestScore\<close>. The triple is
  (\<open>bestSliceIndex\<close>, \<open>bestSliceY\<close>, \<open>bestScore\<close>), with \<open>None\<close> for Python's
  \<^verbatim>\<open>None\<close>.
\<close>

definition keep_best ::
  "CygonRectanglePacker \<Rightarrow> int \<Rightarrow> nat \<Rightarrow> nat \<Rightarrow> nat option \<times> int \<times> int \<Rightarrow> nat option \<times> int \<times> int" where
  "keep_best self rectangleHeight leftSliceIndex rightSliceIndex best =
     (let highest = highest_slice (heightSlices self) leftSliceIndex rightSliceIndex
      in if highest + rectangleHeight < packingAreaHeight self then
           (let score = highest
            in if score < snd (snd best) then (Some leftSliceIndex, highest, score) else best)
         else best)"

text \<open>
  The outer \<^verbatim>\<open>while rightSliceIndex <= len(self.heightSlices)\<close> loop of
  \<^verbatim>\<open>tryFindBestPlacement\<close>, with the loop variables as arguments. The read
  \<^verbatim>\<open>self.heightSlices[leftSliceIndex]\<close> at the head of the body raises on an index past
  the end (only possible on an empty list, in the first round).
\<close>

function search_loop ::
  "CygonRectanglePacker \<Rightarrow> int \<Rightarrow> int \<Rightarrow> nat \<Rightarrow> nat \<Rightarrow> nat option \<times> int \<times> int
     \<Rightarrow> error + (nat option \<times> int \<times> int)" where
  "search_loop self rectangleWidth rectangleHeight leftSliceIndex rightSliceIndex best =
     (if rightSliceIndex \<le> length (heightSlices self) then
        (if leftSliceIndex \<ge> length (heightSlices self) then Inl IndexError
         else
           (let best' = keep_best self rectangleHeight leftSliceIndex rightSliceIndex best;
                leftSliceIndex' = leftSliceIndex + 1
            in if leftSliceIndex' \<ge> length (heightSlices self) then Inr best'
               else
                 (let rightRectangleEnd = point_x (heightSlices self ! leftSliceIndex') + rectangleWidth;
                      rightSliceIndex' = advance_right (heightSlices self) (packingAreaWidth self)
                                            rightRectangleEnd rightSliceIndex
                  in if rightSliceIndex' > length (heightSlices self) then Inr best'
                     else search_loop self rectangleWidth rectangleHeight leftSliceIndex'
                            rightSliceIndex' best')))
      else Inr best)"
  by pat_completeness auto
termination
  by (relation "measure (\<lambda>(self, rectangleWidth, rectangleHeight, leftSliceIndex, rest).
        length (heightSlices self) - leftSliceIndex)") auto

declare search_loop.simps [simp del]

definition tryFindBestPlacement :: "CygonRectanglePacker \<Rightarrow> int \<Rightarrow> int \<Rightarrow> error + Point option" where
  "tryFindBestPlacement self rectangleWidth rectangleHeight =
     (let bestScore = packingAreaWidth self * packingAreaHeight self;
          rightSliceIndex = bisect_left (heightSlices self) (Point rectangleWidth 0) 0
                              (length (heightSlices self))
      in case search_loop self rectangleWidth rectangleHeight 0 rightSliceIndex (None, 0, bestScore) of
           Inl e \<Rightarrow> Inl e
         | Inr (bestSliceIndex, bestSliceY, bestScore') \<Rightarrow>
             (case bestSliceIndex of
                None \<Rightarrow> Inr None
              | Some i \<Rightarrow>
                  if i < length (heightSlices self)
                  then Inr (Some (Point (point_x (heightSlices self ! i)) bestSliceY))
                  else Inl IndexError))"

section \<open>Integration of a placed rectangle\<close>

text \<open>
  Python list operations used by \<^verbatim>\<open>integrateRectangle\<close>: \<^verbatim>\<open>a[i]\<close> with a possibly
  negative index, \<^verbatim>\<open>a.insert(i, v)\<close> and \<^verbatim>\<open>del a[i:j]\<close> for indices that are not
  negative.
\<close>

definition getitem :: "'a list \<Rightarrow> int \<Rightarrow> error + 'a" where
  "getitem a i =
     (if 0 \<le> i \<and> i < int (length a) then Inr (a ! nat i)
      else if i < 0 \<and> - int (length a) \<le> i then Inr (a ! nat (int (length a) + i))
      else Inl IndexError)"

definition list_insert :: "'a list \<Rightarrow> nat \<Rightarrow> 'a \<Rightarrow> 'a list" where
  "list_insert a i v = take i a @ [v] @ drop i a"

definition del_slice :: "'a list \<Rightarrow> nat \<Rightarrow> nat \<Rightarrow> 'a list" where
  "del_slice a i j = (if i < j then take i a @ drop j a else a)"

text \<open>
  The second half of \<^verbatim>\<open>integrateRectangle\<close>, from \<^verbatim>\<open>right = left + width\<close> on:
  \<open>slices\<close> is the list after the first slice has been replaced or inserted and
  \<open>startSlice\<close> is already incremented.
\<close>

definition integrate_end ::
  "int \<Rightarrow> Point list \<Rightarrow> nat \<Rightarrow> int \<Rightarrow> int \<Rightarrow> error + Point list" where
  "integrate_end areaWidth slices startSlice right firstSliceOriginalHeight =
     (if startSlice \<ge> length slices then
        (if right < areaWidth then Inr (slices @ [Point right firstSliceOriginalHeight])
         else Inr slices)
      else
        (case binary_search slices (Point right 0) startSlice (Some (length slices)) of
           Inl e \<Rightarrow> Inl e
         | Inr (endSlice, hit) \<Rightarrow>
             if hit then Inr (del_slice slices startSlice endSlice)
             else
               (case (if endSlice = startSlice then Inr firstSliceOriginalHeight
                      else map_sum id point_y (getitem slices (int endSlice - 1))) of
                  Inl e \<Rightarrow> Inl e
                | Inr returnHeight \<Rightarrow>
                    (let slices' = del_slice slices startSlice endSlice
                     in if right < areaWidth
                        then Inr (list_insert slices' startSlice (Point right returnHeight))
                        else Inr slices'))))"

definition integrateRectangle ::
  "CygonRectanglePacker \<Rightarrow> int \<Rightarrow> int \<Rightarrow> int \<Rightarrow> error + CygonRectanglePacker" where
  "integrateRectangle self left width bottom =
     (case binary_search (heightSlices self) (Point left 0) 0 None of
        Inl e \<Rightarrow> Inl e
      | Inr (startSlice, hit) \<Rightarrow>
          (case (if hit
                 then map_sum id (\<lambda>p. (point_y p, (heightSlices self)[startSlice := Point left bottom]))
                        (getitem (heightSlices self) (int startSlice))
                 else map_sum id (\<lambda>p. (point_y p, list_insert (heightSlices self) startSlice (Point left bottom)))
                        (getitem (heightSlices self) (int startSlice - 1))) of
             Inl e \<Rightarrow> Inl e
           | Inr (firstSliceOriginalHeight, slices) \<Rightarrow>
               (case integrate_end (packingAreaWidth self) slices (startSlice + 1) (left + width)
                       firstSliceOriginalHeight of
                  Inl e \<Rightarrow> Inl e
                | Inr slices' \<Rightarrow> Inr (self\<lparr>heightSlices := slices'\<rparr>))))"

section \<open>The packer's entry points\<close>

text \<open>
  \<^verbatim>\<open>TryPack\<close> returns the placement (\<open>None\<close> for Python's \<^verbatim>\<open>None\<close>) together with
  the packer after the call. \<^verbatim>\<open>if placement:\<close> holds for every \<^verbatim>\<open>Point\<close>.
\<close>

definition TryPack ::
  "CygonRectanglePacker \<Rightarrow> int \<Rightarrow> int \<Rightarrow> error + (Point option \<times> CygonRectanglePacker)" where
  "TryPack self rectangleWidth rectangleHeight =
     (if rectangleWidth > packingAreaWidth self \<or> rectangleHeight > packingAreaHeight self
      then Inr (None, self)
      else
        (case tryFindBestPlacement self rectangleWidth rectangleHeight of
           Inl e \<Rightarrow> Inl e
         | Inr None \<Rightarrow> Inr (None, self)
         | Inr (Some placement) \<Rightarrow>
             (case integrateRectangle self (point_x placement) rectangleWidth
                     (point_y placement + rectangleHeight) of
                Inl e \<Rightarrow> Inl e
              | Inr self' \<Rightarrow> Inr (Some placement, self'))))"

text \<open>\<^verbatim>\<open>Pack\<close>: as \<^verbatim>\<open>TryPack\<close>, raising \<^verbatim>\<open>OutOfSpaceError\<close> when nothing fits.\<close>

definition Pack ::
  "CygonRectanglePacker \<Rightarrow> int \<Rightarrow> int \<Rightarrow> error + (Point \<times> CygonRectanglePacker)" where
  "Pack self rectangleWidth rectangleHeight =
     (case TryPack self rectangleWidth rectangleHeight of
        Inl e \<Rightarrow> Inl e
      | Inr (None, self') \<Rightarrow> Inl OutOfSpaceError
      | Inr (Some point, self') \<Rightarrow> Inr (point, self'))"

text \<open>
  A sequence of \<^verbatim>\<open>TryPack\<close> calls on one packer: the requests are (width, height)
  pairs; the result lists each call's answer in order and gives the final packer.
\<close>

fun TryPack_all ::
  "CygonRectanglePacker \<Rightarrow> (int \<times> int) list \<Rightarrow> error + (Point option list \<times> CygonRectanglePacker)" where
  "TryPack_all self [] = Inr ([], self)"
| "TryPack_all self ((w, h) # rest) =
     (case TryPack self w h of
        Inl e \<Rightarrow> Inl e
      | Inr (placement, self') \<Rightarrow>
          (case TryPack_all self' rest of
             Inl e \<Rightarrow> Inl e
           | Inr (placements, self'') \<Rightarrow> Inr (placement # placements, self'')))"

section \<open>Rounding up to a power of two\<close>

text \<open>
  \<^verbatim>\<open>nearest_pow2\<close>: the \<^verbatim>\<open>while m:\<close> loop clears the lowest set bit until one bit is
  left. On a negative argument it never ends, so the loop is a partial function and
  \<open>None\<close> stands for not returning.
\<close>

partial_function (option) nearest_pow2_loop :: "int \<Rightarrow> int \<Rightarrow> int option" where
  "nearest_pow2_loop n m =
     (if m \<noteq> 0 then nearest_pow2_loop m (m AND (m - 1)) else Some (push_bit 1 n))"

declare nearest_pow2_loop.simps [code]

definition nearest_pow2 :: "int \<Rightarrow> int option" where
  "nearest_pow2 n =
     (let m = n AND (n - 1)
      in if m = 0 then Some n
         else nearest_pow2_loop m (m AND (m - 1)))"

section \<open>Predicates of the statements and of the proofs\<close>

text \<open>
  A best-candidate triple is sound when its index, if any, is a slice of the profile and
  its height is the highest slice of some window starting there and leaves the rectangle
  strictly below the area height.
\<close>

definition candidate_ok :: "CygonRectanglePacker \<Rightarrow> int \<Rightarrow> nat option \<times> int \<times> int \<Rightarrow> bool" where
  "candidate_ok self h best \<longleftrightarrow>
     (\<forall>i. fst best = Some i \<longrightarrow>
        i < length (heightSlices self) \<and> fst (snd best) + h < packingAreaHeight self
        \<and> (\<exists>r \<le> length (heightSlices self). fst (snd best) = highest_slice (heightSlices self) i r))"

text \<open>The breakpoints' x-values are strictly increasing along the list.\<close>

definition strictly_increasing :: "Point list \<Rightarrow> bool" where
  "strictly_increasing slices \<longleftrightarrow> sorted_wrt (\<lambda>p q. point_x p < point_x q) slices"

text \<open>The breakpoints' x-values never decrease along the list.\<close>

definition increasing :: "Point list \<Rightarrow> bool" where
  "increasing slices \<longleftrightarrow> sorted_wrt (\<lambda>p q. point_x p \<le> point_x q) slices"

text \<open>
  What \<^verbatim>\<open>integrateRectangle\<close> leaves after the rectangle's own slice, read off the
  slices \<open>rest\<close> that followed the start: the slices starting before \<open>right\<close> are
  covered and go; if a slice starts exactly at \<open>right\<close> nothing is added; otherwise,
  inside the area, a slice at \<open>right\<close> returns to the height of the last covered slice
  (to \<open>orig\<close> if none is covered).
\<close>

definition tail_after :: "int \<Rightarrow> int \<Rightarrow> int \<Rightarrow> Point list \<Rightarrow> Point list" where
  "tail_after areaWidth right orig rest =
     (let covered = takeWhile (\<lambda>p. point_x p < right) rest;
          kept = dropWhile (\<lambda>p. point_x p < right) rest
      in if kept \<noteq> [] \<and> point_x (hd kept) = right then kept
         else (if right < areaWidth
               then [Point right (if covered = [] then orig else point_y (last covered))]
               else []) @ kept)"

text \<open>
  The span of breakpoint \<open>i\<close>: from its x up to the next breakpoint's x, the last one
  up to the area width.
\<close>

definition span :: "int \<Rightarrow> Point list \<Rightarrow> nat \<Rightarrow> int set" where
  "span areaWidth slices i =
     {point_x (slices ! i) ..<
        (if Suc i < length slices then point_x (slices ! Suc i) else areaWidth)}"

text \<open>
  The profile invariant: x-values strictly increasing, the first one 0, every column of
  the area in exactly one span, and no height above the area height.
\<close>

definition profile_ok :: "int \<Rightarrow> int \<Rightarrow> Point list \<Rightarrow> bool" where
  "profile_ok areaWidth areaHeight slices \<longleftrightarrow>
     strictly_increasing slices
     \<and> slices \<noteq> [] \<and> point_x (hd slices) = 0
     \<and> (\<forall>c. 0 \<le> c \<and> c < areaWidth \<longrightarrow> (\<exists>!i. i < length slices \<and> c \<in> span areaWidth slices i))
     \<and> (\<forall>p\<in>set slices. point_y p \<le> areaHeight)"

text \<open>
  The height of the silhouette over column \<open>c\<close>: the height of the last breakpoint
  that starts at or before \<open>c\<close>.
\<close>

definition height_at :: "Point list \<Rightarrow> int \<Rightarrow> int" where
  "height_at slices c = point_y (last (filter (\<lambda>p. point_x p \<le> c) slices))"

text \<open>
  A rectangle of width \<open>w\<close> and height \<open>h\<close> can stand at \<open>(x', y')\<close>: its span is
  inside the area, its far edge is strictly below the area height, and no column under
  it is higher than \<open>y'\<close>.
\<close>

definition placement_free :: "CygonRectanglePacker \<Rightarrow> int \<Rightarrow> int \<Rightarrow> int \<Rightarrow> int \<Rightarrow> bool" where
  "placement_free self w h x' y' \<longleftrightarrow>
     0 \<le> x' \<and> x' + w \<le> packingAreaWidth self
     \<and> y' + h < packingAreaHeight self
     \<and> list_all (\<lambda>c. height_at (heightSlices self) c \<le> y') [x' .. x' + w - 1]"

text \<open>Every breakpoint after the first starts inside the area.\<close>

definition inside :: "int \<Rightarrow> Point list \<Rightarrow> bool" where
  "inside areaWidth slices \<longleftrightarrow> (\<forall>p\<in>set (tl slices). point_x p < areaWidth)"

text \<open>
  The invariant behind the disjoint boxes: x-values that never decrease (a rectangle of
  width 0 leaves two breakpoints at one x), starting at 0 and, after the first, inside
  the area.
\<close>

definition skyline_ok :: "int \<Rightarrow> Point list \<Rightarrow> bool" where
  "skyline_ok areaWidth slices \<longleftrightarrow>
     increasing slices \<and> slices \<noteq> [] \<and> point_x (hd slices) = 0 \<and> inside areaWidth slices"

text \<open>
  The window \<open>[l, r)\<close> of the search holds every slice from \<open>l\<close> on that starts
  before the right end of a rectangle of width \<open>w\<close> standing at slice \<open>l\<close>.
\<close>

definition window_ok :: "Point list \<Rightarrow> int \<Rightarrow> nat \<Rightarrow> nat \<Rightarrow> bool" where
  "window_ok slices w l r \<longleftrightarrow>
     (\<forall>j. l \<le> j \<and> j < length slices \<and> point_x (slices ! j) < point_x (slices ! l) + w \<longrightarrow> j < r)"

text \<open>
  The best candidate, if any, fits into the area's width and is at least as high as every
  slice under it.
\<close>

definition clear_above :: "CygonRectanglePacker \<Rightarrow> int \<Rightarrow> nat option \<times> int \<times> int \<Rightarrow> bool" where
  "clear_above self w best \<longleftrightarrow>
     (\<forall>i. fst best = Some i \<longrightarrow>
        i < length (heightSlices self)
        \<and> point_x (heightSlices self ! i) + w \<le> packingAreaWidth self
        \<and> (\<forall>j. i \<le> j \<and> j < length (heightSlices self)
                 \<and> point_x (heightSlices self ! j) < point_x (heightSlices self ! i) + w
               \<longrightarrow> point_y (heightSlices self ! j) \<le> fst (snd best)))"

text \<open>
  The box \<open>[x, x + w) \<times> [y, y + h)\<close> of a rectangle placed at \<open>p = (x, y)\<close> for the
  request \<open>(w, h)\<close>.
\<close>

definition box :: "Point \<Rightarrow> int \<times> int \<Rightarrow> (int \<times> int) set" where
  "box p req =
     {(a, b). point_x p \<le> a \<and> a < point_x p + fst req \<and> point_y p \<le> b \<and> b < point_y p + snd req}"

text \<open>
  The rectangles committed by a sequence of calls: each successful call's placement with
  its request, in call order.
\<close>

fun committed :: "(int \<times> int) list \<Rightarrow> Point option list \<Rightarrow> (Point \<times> int \<times> int) list" where
  "committed (req # reqs) (Some p # placements) = (p, req) # committed reqs placements"
| "committed (req # reqs) (None # placements) = committed reqs placements"
| "committed reqs placements = []"

text \<open>Two committed rectangles have no point in common.\<close>

definition disjoint_boxes :: "Point \<times> int \<times> int \<Rightarrow> Point \<times> int \<times> int \<Rightarrow> bool" where
  "disjoint_boxes r r' \<longleftrightarrow> box (fst r) (snd r) \<inter> box (fst r') (snd r') = {}"

text \<open>
  A committed rectangle lies inside the area's width and under the silhouette.
\<close>

definition below_skyline :: "int \<Rightarrow> Point list \<Rightarrow> Point \<times> int \<times> int \<Rightarrow> bool" where
  "below_skyline areaWidth slices r \<longleftrightarrow>
     0 \<le> point_x (fst r) \<and> point_x (fst r) + fst (snd r) \<le> areaWidth
     \<and> (\<forall>c. point_x (fst r) \<le> c \<and> c < point_x (fst r) + fst (snd r)
            \<longrightarrow> point_y (fst r) + snd (snd r) \<le> height_at slices c)"

section \<open>Failed calls\<close>

lemma TryPack_None_unchanged:
  assumes "TryPack self w h = Inr (None, self')"
  shows "self' = self"
  using assms
  by (auto simp: TryPack_def split: if_splits sum.splits option.splits)

text \<open>
  C5. Whenever \<^verbatim>\<open>TryPack\<close> answers \<^verbatim>\<open>None\<close>, the packer after the call is the packer
  before it: \<open>heightSlices\<close> holds the same sequence of breakpoints (and the area bounds
  are the same too). This holds for every packer state and all dimensions.
\<close>

theorem TryPack_failure_atomic:
  "TryPack self w h = Inr (None, self') \<Longrightarrow> heightSlices self' = heightSlices self \<and> self' = self"
  by (auto dest: TryPack_None_unchanged)

theorem TryPack_failure_atomic_witness:
  "TryPack (init 10 10) 10 10 = Inr (None, init 10 10)
   \<and> heightSlices (init 10 10) = [Point 0 0]"
proof -
  have run: "TryPack (init 10 10) 10 10 = Inr (None, init 10 10)"
    by code_simp
  from TryPack_failure_atomic [OF run] show ?thesis
    using run by (simp add: init_def)
qed

text \<open>
  C8. A rectangle wider than the area or taller than the area is refused at once, in
  every packer state: the answer is \<^verbatim>\<open>None\<close> and the packer is returned as it was,
  whatever the search would have done on that state. On a fresh 4 by 4 packer,
  \<^verbatim>\<open>TryPack(5, 1)\<close> fails and the profile is still the single breakpoint (0, 0).
\<close>

theorem TryPack_rejects_oversize:
  "(w > packingAreaWidth self \<or> h > packingAreaHeight self \<longrightarrow> TryPack self w h = Inr (None, self))
   \<and> TryPack (init 4 4) 5 1 = Inr (None, init 4 4)
   \<and> heightSlices (init 4 4) = [Point 0 0]"
  by (simp add: TryPack_def init_def)

theorem TryPack_rejects_oversize_witness:
  "(1 > packingAreaWidth \<lparr>packingAreaWidth = 7, packingAreaHeight = 2, heightSlices = []\<rparr>
    \<or> 3 > packingAreaHeight \<lparr>packingAreaWidth = 7, packingAreaHeight = 2, heightSlices = []\<rparr>)
   \<and> TryPack \<lparr>packingAreaWidth = 7, packingAreaHeight = 2, heightSlices = []\<rparr> 1 3
       = Inr (None, \<lparr>packingAreaWidth = 7, packingAreaHeight = 2, heightSlices = []\<rparr>)"
  using TryPack_rejects_oversize
    [where self = "\<lparr>packingAreaWidth = 7, packingAreaHeight = 2, heightSlices = []\<rparr>"
       and w = 1 and h = 3]
  by simp

section \<open>Scenarios on a 10 by 10 area\<close>

text \<open>
  C3. On a fresh 10 by 10 packer the first \<^verbatim>\<open>TryPack(10, 5)\<close> is placed at (0, 0) and
  leaves the single breakpoint (0, 5). The second \<^verbatim>\<open>TryPack(10, 5)\<close> is refused: the
  test \<^verbatim>\<open>highest + rectangleHeight < self.packingAreaHeight\<close> is 5 + 5 < 10, which is
  false, so the answer is \<^verbatim>\<open>None\<close> and the profile stays (0, 5), where the scenario
  expects the placement (0, 5) and the profile (0, 10).
\<close>

theorem scenario_full_width_twice:
  "TryPack_all (init 10 10) [(10, 5), (10, 5)]
     = Inr ([Some (Point 0 0), None],
            \<lparr>packingAreaWidth = 10, packingAreaHeight = 10, heightSlices = [Point 0 5]\<rparr>)"
  by code_simp

text \<open>
  C4, as stated: the third \<^verbatim>\<open>TryPack(4, 3)\<close> on a fresh 10 by 10 packer is not a
  failure.
\<close>

theorem scenario_three_4x3_counterexample:
  "map_sum id fst (TryPack_all (init 10 10) [(4, 3), (4, 3), (4, 3)])
     \<noteq> Inr [Some (Point 0 0), Some (Point 4 0), None]"
  by code_simp

text \<open>
  C4, amended. On a fresh 10 by 10 packer three calls \<^verbatim>\<open>TryPack(4, 3)\<close> are placed at
  (0, 0), at (4, 0) and at (0, 3): the third rectangle does not fit beside the first two,
  and is stacked on top of the first one. The profile is then (0, 6), (4, 3), (8, 0).
\<close>

theorem scenario_three_4x3:
  "TryPack_all (init 10 10) [(4, 3), (4, 3), (4, 3)]
     = Inr ([Some (Point 0 0), Some (Point 4 0), Some (Point 0 3)],
            \<lparr>packingAreaWidth = 10, packingAreaHeight = 10,
               heightSlices = [Point 0 6, Point 4 3, Point 8 0]\<rparr>)"
  by code_simp

section \<open>The search loop\<close>

lemma search_loop_exit:
  "\<not> r \<le> length (heightSlices self) \<Longrightarrow> search_loop self w h l r best = Inr best"
  by (subst search_loop.simps) simp

lemma search_loop_error:
  "r \<le> length (heightSlices self) \<Longrightarrow> \<not> l < length (heightSlices self)
   \<Longrightarrow> search_loop self w h l r best = Inl IndexError"
  by (subst search_loop.simps) simp

lemma search_loop_last:
  "r \<le> length (heightSlices self) \<Longrightarrow> l < length (heightSlices self)
   \<Longrightarrow> \<not> Suc l < length (heightSlices self)
   \<Longrightarrow> search_loop self w h l r best = Inr (keep_best self h l r best)"
  by (subst search_loop.simps) (simp add: Let_def)

lemma search_loop_left_area:
  "r \<le> length (heightSlices self) \<Longrightarrow> Suc l < length (heightSlices self)
   \<Longrightarrow> \<not> advance_right (heightSlices self) (packingAreaWidth self)
          (point_x (heightSlices self ! Suc l) + w) r \<le> length (heightSlices self)
   \<Longrightarrow> search_loop self w h l r best = Inr (keep_best self h l r best)"
  by (subst search_loop.simps) (simp add: Let_def)

lemma search_loop_next:
  "r \<le> length (heightSlices self) \<Longrightarrow> Suc l < length (heightSlices self)
   \<Longrightarrow> advance_right (heightSlices self) (packingAreaWidth self)
          (point_x (heightSlices self ! Suc l) + w) r \<le> length (heightSlices self)
   \<Longrightarrow> search_loop self w h l r best =
       search_loop self w h (Suc l)
         (advance_right (heightSlices self) (packingAreaWidth self)
            (point_x (heightSlices self ! Suc l) + w) r)
         (keep_best self h l r best)"
  by (subst search_loop.simps) (simp add: Let_def)

lemma search_loop_rule:
  assumes res: "search_loop self w h l r best = Inr res"
    and init: "I l r best"
    and keep: "\<And>l r best. I l r best \<Longrightarrow> r \<le> length (heightSlices self) \<Longrightarrow> l < length (heightSlices self)
        \<Longrightarrow> J (keep_best self h l r best)"
    and step: "\<And>l r best. I l r best \<Longrightarrow> r \<le> length (heightSlices self) \<Longrightarrow> Suc l < length (heightSlices self)
        \<Longrightarrow> advance_right (heightSlices self) (packingAreaWidth self)
              (point_x (heightSlices self ! Suc l) + w) r \<le> length (heightSlices self)
        \<Longrightarrow> I (Suc l) (advance_right (heightSlices self) (packingAreaWidth self)
              (point_x (heightSlices self ! Suc l) + w) r) (keep_best self h l r best)"
    and exit: "\<And>l r best. I l r best \<Longrightarrow> \<not> r \<le> length (heightSlices self) \<Longrightarrow> J best"
  shows "J res"
  using res init
proof (induction l arbitrary: r best
    rule: measure_induct_rule [where f = "\<lambda>l. length (heightSlices self) - l"])
  case (less l)
  let ?n = "length (heightSlices self)"
  let ?r' = "advance_right (heightSlices self) (packingAreaWidth self)
              (point_x (heightSlices self ! Suc l) + w) r"
  consider (c_exit) "\<not> r \<le> ?n" | (c_error) "r \<le> ?n" "\<not> l < ?n"
    | (c_last) "r \<le> ?n" "l < ?n" "\<not> Suc l < ?n"
    | (c_left) "r \<le> ?n" "Suc l < ?n" "\<not> ?r' \<le> ?n"
    | (c_next) "r \<le> ?n" "Suc l < ?n" "?r' \<le> ?n"
    by linarith
  then show ?case
  proof cases
    case c_exit
    with less.prems(1) have "res = best"
      by (simp add: search_loop_exit)
    with exit [OF less.prems(2) c_exit] show ?thesis
      by simp
  next
    case c_error
    with less.prems(1) show ?thesis
      by (simp add: search_loop_error)
  next
    case c_last
    with less.prems(1) have "res = keep_best self h l r best"
      by (simp add: search_loop_last)
    with keep [OF less.prems(2) c_last(1,2)] show ?thesis
      by simp
  next
    case c_left
    with less.prems(1) have "res = keep_best self h l r best"
      by (simp add: search_loop_left_area)
    with keep [OF less.prems(2) c_left(1)] c_left(2) show ?thesis
      by simp
  next
    case c_next
    have rec: "search_loop self w h (Suc l) ?r' (keep_best self h l r best) = Inr res"
      using less.prems(1) c_next by (simp add: search_loop_next)
    have inv: "I (Suc l) ?r' (keep_best self h l r best)"
      using less.prems(2) c_next by (intro step)
    show ?thesis
      using c_next by (intro less.IH [OF _ rec inv]) simp
  qed
qed

lemma search_loop_no_error:
  assumes "l < length (heightSlices self)"
  shows "search_loop self w h l r best \<noteq> Inl e"
  using assms
proof (induction self w h l r best rule: search_loop.induct)
  case (1 self w h l r best)
  show ?case
    using "1.prems" "1.IH"
    by (subst search_loop.simps) (auto simp: Let_def)
qed


lemma keep_best_candidate_ok:
  assumes "candidate_ok self h best" "r \<le> length (heightSlices self)" "l < length (heightSlices self)"
  shows "candidate_ok self h (keep_best self h l r best)"
  using assms unfolding candidate_ok_def keep_best_def Let_def
  by (cases best) auto

lemma search_loop_candidate_ok:
  assumes "search_loop self w h l r best = Inr res" "candidate_ok self h best"
  shows "candidate_ok self h res"
  by (rule search_loop_rule [where I = "\<lambda>l r best. candidate_ok self h best", OF assms])
     (simp_all add: keep_best_candidate_ok)

lemma tryFindBestPlacement_sound:
  assumes "tryFindBestPlacement self w h = Inr (Some p)"
  shows "\<exists>i r. i < length (heightSlices self) \<and> r \<le> length (heightSlices self)
           \<and> p = Point (point_x (heightSlices self ! i)) (highest_slice (heightSlices self) i r)
           \<and> point_y p + h < packingAreaHeight self"
proof -
  let ?r = "bisect_left (heightSlices self) (Point w 0) 0 (length (heightSlices self))"
  let ?b = "(None, 0, packingAreaWidth self * packingAreaHeight self)"
  from assms obtain i y s where run: "search_loop self w h 0 ?r ?b = Inr (Some i, y, s)"
    and p: "p = Point (point_x (heightSlices self ! i)) y"
    by (auto simp: tryFindBestPlacement_def Let_def split: sum.splits option.splits if_splits)
  have "candidate_ok self h ?b"
    by (simp add: candidate_ok_def)
  from search_loop_candidate_ok [OF run this] show ?thesis
    using p by (auto simp: candidate_ok_def)
qed

lemma TryPack_Some_search:
  assumes "TryPack self w h = Inr (Some p, self')"
  shows "tryFindBestPlacement self w h = Inr (Some p)"
  using assms
  by (auto simp: TryPack_def split: if_splits sum.splits option.splits)

text \<open>
  C7. In every packer state and for all dimensions, a placement returned by
  \<^verbatim>\<open>TryPack\<close> for height \<open>h\<close> has \<open>y + h\<close> strictly below
  \<open>packingAreaHeight\<close>: a candidate whose far edge would land exactly on the area
  boundary is never kept.
\<close>

theorem TryPack_strictly_below_area_height:
  "TryPack self w h = Inr (Some p, self') \<Longrightarrow> point_y p + h < packingAreaHeight self"
  using tryFindBestPlacement_sound [OF TryPack_Some_search] by blast

theorem TryPack_strictly_below_area_height_witness:
  "TryPack (init 10 10) 4 3
     = Inr (Some (Point 0 0),
            \<lparr>packingAreaWidth = 10, packingAreaHeight = 10, heightSlices = [Point 0 3, Point 4 0]\<rparr>)
   \<and> point_y (Point 0 0) + 3 < packingAreaHeight (init 10 10)"
proof -
  have run: "TryPack (init 10 10) 4 3
     = Inr (Some (Point 0 0),
            \<lparr>packingAreaWidth = 10, packingAreaHeight = 10, heightSlices = [Point 0 3, Point 4 0]\<rparr>)"
    by code_simp
  from TryPack_strictly_below_area_height [OF run] run show ?thesis
    by simp
qed

lemma TryPack_fresh:
  assumes "TryPack (init W H) w h = Inr (Some p, self')"
  shows "p = Point 0 0"
proof -
  from tryFindBestPlacement_sound [OF TryPack_Some_search [OF assms]]
  obtain i r where "i < 1" "r \<le> 1" "p = Point (point_x ([Point 0 0] ! i)) (highest_slice [Point 0 0] i r)"
    by (auto simp: init_def)
  then show ?thesis
    by (simp add: highest_slice_def)
qed

lemma TryPack_all_fresh_first:
  assumes "TryPack_all (init W H) reqs = Inr (placements, self')"
    and "find (\<lambda>r. r \<noteq> None) placements = Some first"
  shows "first = Some (Point 0 0)"
  using assms
proof (induction reqs arbitrary: placements)
  case Nil
  then show ?case by simp
next
  case (Cons req reqs)
  obtain w h where req: "req = (w, h)" by (cases req)
  from Cons.prems(1) obtain pl s rest where
    one: "TryPack (init W H) w h = Inr (pl, s)" and
    more: "TryPack_all s reqs = Inr (rest, self')" and
    pls: "placements = pl # rest"
    by (auto simp: req split: sum.splits prod.splits)
  show ?case
  proof (cases pl)
    case None
    with one have "s = init W H"
      by (simp add: TryPack_None_unchanged)
    with Cons.IH [of rest] more Cons.prems(2) pls None show ?thesis
      by simp
  next
    case (Some p)
    with one have "p = Point 0 0"
      by (simp add: TryPack_fresh)
    with Cons.prems(2) pls Some show ?thesis
      by simp
  qed
qed

text \<open>
  C10. In every packer state, the x of a placement returned by \<^verbatim>\<open>TryPack\<close> is the
  x of one of the breakpoints the profile had before the call. On a freshly constructed
  packer, whatever calls are made, the first call that succeeds is placed at (0, 0).
\<close>

theorem TryPack_placement_at_slice_start:
  "(TryPack self w h = Inr (Some p, self') \<longrightarrow> point_x p \<in> point_x ` set (heightSlices self))
   \<and> (TryPack_all (init W H) reqs = Inr (placements, final)
        \<and> find (\<lambda>r. r \<noteq> None) placements = Some first \<longrightarrow> first = Some (Point 0 0))"
proof (intro conjI impI)
  assume "TryPack self w h = Inr (Some p, self')"
  from tryFindBestPlacement_sound [OF TryPack_Some_search [OF this]]
  show "point_x p \<in> point_x ` set (heightSlices self)"
    by force
next
  assume "TryPack_all (init W H) reqs = Inr (placements, final)
        \<and> find (\<lambda>r. r \<noteq> None) placements = Some first"
  then show "first = Some (Point 0 0)"
    using TryPack_all_fresh_first by blast
qed

theorem TryPack_placement_at_slice_start_witness:
  "TryPack \<lparr>packingAreaWidth = 10, packingAreaHeight = 10, heightSlices = [Point 0 3, Point 4 0]\<rparr> 4 3
     = Inr (Some (Point 4 0),
            \<lparr>packingAreaWidth = 10, packingAreaHeight = 10,
               heightSlices = [Point 0 3, Point 4 3, Point 8 0]\<rparr>)
   \<and> point_x (Point 4 0) \<in> point_x ` set [Point 0 3, Point 4 0]
   \<and> TryPack_all (init 10 10) [(10, 10), (4, 3)]
       = Inr ([None, Some (Point 0 0)],
              \<lparr>packingAreaWidth = 10, packingAreaHeight = 10, heightSlices = [Point 0 3, Point 4 0]\<rparr>)
   \<and> find (\<lambda>r. r \<noteq> None) [None, Some (Point 0 0)] = Some (Some (Point 0 0))"
proof -
  let ?s1 = "\<lparr>packingAreaWidth = 10, packingAreaHeight = 10, heightSlices = [Point 0 3, Point 4 0]\<rparr>"
  let ?s2 = "\<lparr>packingAreaWidth = 10, packingAreaHeight = 10,
               heightSlices = [Point 0 3, Point 4 3, Point 8 0]\<rparr>"
  have one: "TryPack ?s1 4 3 = Inr (Some (Point 4 0), ?s2)"
    by code_simp
  have all: "TryPack_all (init 10 10) [(10, 10), (4, 3)] = Inr ([None, Some (Point 0 0)], ?s1)"
    by code_simp
  have first: "find (\<lambda>r. r \<noteq> None) [None, Some (Point 0 0)] = Some (Some (Point 0 0))"
    by simp
  from TryPack_placement_at_slice_start
    [where self = ?s1 and w = 4 and h = 3 and p = "Point 4 0" and self' = ?s2
       and W = 10 and H = 10 and reqs = "[(10, 10), (4, 3)]"
       and placements = "[None, Some (Point 0 0)]" and final = ?s1
       and first = "Some (Point 0 0)"]
  show ?thesis
    using one all first by simp
qed

section \<open>Rounding up to a power of two: correctness\<close>

lemma clear_lowest_bit_pow2: "(2::int) ^ k AND (2 ^ k - 1) = 0"
proof -
  have "(2::int) ^ k AND mask k = take_bit k (2 ^ k)"
    by (simp add: take_bit_eq_mask)
  then show ?thesis
    by (simp add: mask_eq_exp_minus_1)
qed

lemma bit_of_interval:
  fixes n :: int
  assumes "2 ^ k \<le> n" "n < 2 ^ (k + 1)"
  shows "bit n k"
proof -
  have "(n - 2 ^ k) div 2 ^ k = 0"
    using assms by (intro div_pos_pos_trivial) auto
  moreover have "(2 ^ k + (n - 2 ^ k)) div 2 ^ k = (n - 2 ^ k) div 2 ^ k + 1"
    by (rule div_add_self1) simp
  ultimately have "n div 2 ^ k = 1"
    by simp
  then show ?thesis by (simp add: bit_iff_odd)
qed

lemma clear_lowest_bit_bounds:
  fixes n :: int
  assumes "2 ^ k < n" "n < 2 ^ (k + 1)"
  shows "2 ^ k \<le> n AND (n - 1)" "n AND (n - 1) < n"
proof -
  have two_k: "(0::int) < 2 ^ k" by simp
  with assms(1) have pos: "0 \<le> n - 1" by linarith
  have "bit n k" "bit (n - 1) k"
    using assms by (auto intro!: bit_of_interval)
  then have b: "bit (n AND (n - 1)) k"
    by (simp add: bit_and_iff)
  have nn: "0 \<le> n AND (n - 1)"
    using pos by simp
  from b have "odd ((n AND (n - 1)) div 2 ^ k)"
    by (simp add: bit_iff_odd)
  then have "(n AND (n - 1)) div 2 ^ k \<noteq> 0"
    by auto
  then have "\<not> n AND (n - 1) < 2 ^ k"
    using nn by (auto simp: div_pos_pos_trivial)
  then show "2 ^ k \<le> n AND (n - 1)"
    by simp
  have "n AND (n - 1) \<le> n - 1"
    using pos by (rule AND_upper2)
  then show "n AND (n - 1) < n" by simp
qed


lemma nearest_pow2_loop_interval:
  assumes "2 ^ k \<le> n" "n < 2 ^ (k + 1)"
  shows "nearest_pow2_loop n (n AND (n - 1)) = Some (2 ^ (k + 1))"
  using assms
proof (induction n rule: measure_induct_rule [where f = nat])
  case (less n)
  show ?case
  proof (cases "n = 2 ^ k")
    case True
    then show ?thesis
      by (subst nearest_pow2_loop.simps) (simp add: clear_lowest_bit_pow2)
  next
    case False
    with less.prems have lt: "2 ^ k < n" by simp
    let ?m = "n AND (n - 1)"
    from clear_lowest_bit_bounds [OF lt less.prems(2)]
    have m: "2 ^ k \<le> ?m" "?m < n" .
    moreover have "(0::int) < 2 ^ k" by simp
    ultimately have "?m \<noteq> 0" by linarith
    then have "nearest_pow2_loop n ?m = nearest_pow2_loop ?m (?m AND (?m - 1))"
      by (subst nearest_pow2_loop.simps) simp
    also have "\<dots> = Some (2 ^ (k + 1))"
      using m less.prems by (intro less.IH) auto
    finally show ?thesis .
  qed
qed

lemma pow2_interval_ex:
  fixes n :: int
  assumes "1 \<le> n"
  shows "\<exists>k. 2 ^ k \<le> n \<and> n < 2 ^ (k + 1)"
proof -
  from assms have "1 \<le> nat n" by simp
  from ex_power_ivl1 [OF _ this, of 2]
  obtain k where "2 ^ k \<le> nat n" "nat n < 2 ^ (k + 1)" by auto
  then have "int (2 ^ k) \<le> n" "n < int (2 ^ (k + 1))"
    using assms by linarith+
  then show ?thesis by auto
qed

lemma nearest_pow2_interval:
  assumes "2 ^ k \<le> n" "n < 2 ^ (k + 1)"
  shows "nearest_pow2 n = Some (if n = 2 ^ k then 2 ^ k else 2 ^ (k + 1))"
proof (cases "n = 2 ^ k")
  case True
  then show ?thesis
    by (simp add: nearest_pow2_def clear_lowest_bit_pow2)
next
  case False
  with assms have lt: "2 ^ k < n" by simp
  let ?m = "n AND (n - 1)"
  from clear_lowest_bit_bounds [OF lt assms(2)]
  have m: "2 ^ k \<le> ?m" "?m < n" .
  moreover have "(0::int) < 2 ^ k" by simp
  ultimately have "?m \<noteq> 0" by linarith
  moreover have "nearest_pow2_loop ?m (?m AND (?m - 1)) = Some (2 ^ (k + 1))"
    using m assms by (intro nearest_pow2_loop_interval) auto
  ultimately show ?thesis
    using False by (simp add: nearest_pow2_def Let_def)
qed

text \<open>
  C9. For every integer \<open>n\<close> that is at least 1, \<^verbatim>\<open>nearest_pow2(n)\<close> returns (the
  loop ends), and what it returns is a power of two, is at least \<open>n\<close>, and is at most
  every power of two that is at least \<open>n\<close>. In particular it returns \<open>n\<close> itself when
  \<open>n\<close> is a power of two.
\<close>

theorem nearest_pow2_smallest_power:
  "1 \<le> n \<Longrightarrow>
     (\<exists>k. nearest_pow2 n = Some (2 ^ k) \<and> n \<le> 2 ^ k \<and> (\<forall>j. n \<le> 2 ^ j \<longrightarrow> (2::int) ^ k \<le> 2 ^ j))
     \<and> (n = 2 ^ i \<longrightarrow> nearest_pow2 n = Some n)"
proof -
  assume "1 \<le> n"
  from pow2_interval_ex [OF this] obtain k where k: "2 ^ k \<le> n" "n < 2 ^ (k + 1)"
    by blast
  note np = nearest_pow2_interval [OF k]
  have min: "(2::int) ^ (k + 1) \<le> 2 ^ j" if "n \<le> 2 ^ j" "n \<noteq> 2 ^ k" for j
  proof -
    from that k have "(2::int) ^ k < 2 ^ j" by linarith
    then have "k < j" by simp
    then have "k + 1 \<le> j" by simp
    then show ?thesis
      by (intro power_increasing) auto
  qed
  have first: "\<exists>k. nearest_pow2 n = Some (2 ^ k) \<and> n \<le> 2 ^ k \<and> (\<forall>j. n \<le> 2 ^ j \<longrightarrow> (2::int) ^ k \<le> 2 ^ j)"
  proof (cases "n = 2 ^ k")
    case True
    with np show ?thesis by (intro exI [of _ k]) simp
  next
    case False
    with np k min show ?thesis
      by (intro exI [of _ "k + 1"]) auto
  qed
  have second: "nearest_pow2 n = Some n" if "n = 2 ^ i"
  proof -
    from that k have le: "(2::int) ^ k \<le> 2 ^ i" and lt: "(2::int) ^ i < 2 ^ (k + 1)" by auto
    have "k \<le> i"
      using le by (rule power_le_imp_le_exp [rotated]) simp
    moreover have "i < k + 1"
      using lt by (rule power_less_imp_less_exp [rotated]) simp
    ultimately have "k \<le> i" "i < k + 1" .
    then have "i = k" by simp
    with np that show ?thesis by simp
  qed
  from first second show ?thesis by blast
qed

theorem nearest_pow2_smallest_power_witness:
  "(1::int) \<le> 8 \<and> (8::int) = 2 ^ 3 \<and> nearest_pow2 8 = Some 8
   \<and> (\<exists>k. nearest_pow2 8 = Some (2 ^ k) \<and> (8::int) \<le> 2 ^ k)"
  using nearest_pow2_smallest_power [of 8 3] by auto

section \<open>The profile invariant\<close>

lemma strictly_increasing_nth:
  "strictly_increasing a \<Longrightarrow> i < j \<Longrightarrow> j < length a \<Longrightarrow> point_x (a ! i) < point_x (a ! j)"
  by (simp add: strictly_increasing_def sorted_wrt_iff_nth_less)

lemma strictly_increasing_nth_le:
  "strictly_increasing a \<Longrightarrow> i \<le> j \<Longrightarrow> j < length a \<Longrightarrow> point_x (a ! i) \<le> point_x (a ! j)"
  using strictly_increasing_nth [of a i j] by (cases "i = j") auto

lemma strictly_increasing_increasing:
  "strictly_increasing a \<Longrightarrow> increasing a"
  unfolding strictly_increasing_def increasing_def
  by (erule sorted_wrt_mono_rel [rotated]) simp

lemma increasing_nth_le:
  "increasing a \<Longrightarrow> i \<le> j \<Longrightarrow> j < length a \<Longrightarrow> point_x (a ! i) \<le> point_x (a ! j)"
  by (cases "i = j") (simp_all add: increasing_def sorted_wrt_iff_nth_less)

lemma increasing_append:
  "increasing (xs @ ys) \<longleftrightarrow>
     increasing xs \<and> increasing ys \<and> (\<forall>p\<in>set xs. \<forall>q\<in>set ys. point_x p \<le> point_x q)"
  by (simp add: increasing_def sorted_wrt_append)

lemma increasing_Cons:
  "increasing (p # ps) \<longleftrightarrow> increasing ps \<and> (\<forall>q\<in>set ps. point_x p \<le> point_x q)"
  by (auto simp: increasing_def)

lemma increasing_Nil [simp]: "increasing []"
  by (simp add: increasing_def)

lemma increasing_dropWhile:
  "increasing B \<Longrightarrow> increasing (dropWhile Q B)"
  by (simp add: increasing_def)

lemma bisect_left_sorted:
  assumes "increasing a" "lo \<le> hi" "hi \<le> length a"
  shows "lo \<le> bisect_left a v lo hi \<and> bisect_left a v lo hi \<le> hi
    \<and> (\<forall>j. lo \<le> j \<and> j < bisect_left a v lo hi \<longrightarrow> point_x (a ! j) < point_x v)
    \<and> (\<forall>j. bisect_left a v lo hi \<le> j \<and> j < hi \<longrightarrow> point_x v \<le> point_x (a ! j))"
  using assms
proof (induction a v lo hi rule: bisect_left.induct)
  case (1 a v lo hi)
  show ?case
  proof (cases "lo < hi")
    case False
    with "1.prems" show ?thesis
      by (subst (1 2 3 4) bisect_left.simps) simp
  next
    case True
    define mid where "mid = (lo + hi) div 2"
    have mid: "lo \<le> mid" "mid < hi" using True by (auto simp: mid_def)
    show ?thesis
    proof (cases "Point_cmp (a ! mid) v < 0")
      case less: True
      then have eq: "bisect_left a v lo hi = bisect_left a v (mid + 1) hi"
        using True by (subst bisect_left.simps) (simp add: mid_def Let_def)
      have IH: "mid + 1 \<le> bisect_left a v (mid + 1) hi \<and> bisect_left a v (mid + 1) hi \<le> hi
        \<and> (\<forall>j. mid + 1 \<le> j \<and> j < bisect_left a v (mid + 1) hi \<longrightarrow> point_x (a ! j) < point_x v)
        \<and> (\<forall>j. bisect_left a v (mid + 1) hi \<le> j \<and> j < hi \<longrightarrow> point_x v \<le> point_x (a ! j))"
        using "1.IH"(1) [OF True mid_def less] "1.prems" mid by simp
      have below: "point_x (a ! j) < point_x v" if "lo \<le> j" "j \<le> mid" for j
        using increasing_nth_le [OF "1.prems"(1) that(2)] mid "1.prems"(3) less
        by (simp add: Point_cmp_def)
      have "point_x (a ! j) < point_x v" if "lo \<le> j" "j < bisect_left a v (mid + 1) hi" for j
        using below [of j] IH that by (cases "j \<le> mid") auto
      with IH show ?thesis
        unfolding eq using mid by auto
    next
      case ge: False
      then have eq: "bisect_left a v lo hi = bisect_left a v lo mid"
        using True by (subst bisect_left.simps) (simp add: mid_def Let_def)
      have IH: "lo \<le> bisect_left a v lo mid \<and> bisect_left a v lo mid \<le> mid
        \<and> (\<forall>j. lo \<le> j \<and> j < bisect_left a v lo mid \<longrightarrow> point_x (a ! j) < point_x v)
        \<and> (\<forall>j. bisect_left a v lo mid \<le> j \<and> j < mid \<longrightarrow> point_x v \<le> point_x (a ! j))"
        using "1.IH"(2) [OF True mid_def ge] "1.prems" mid by simp
      have above: "point_x v \<le> point_x (a ! j)" if "mid \<le> j" "j < hi" for j
        using increasing_nth_le [OF "1.prems"(1) that(1)] that(2) "1.prems"(3) ge
        by (simp add: Point_cmp_def)
      have "point_x v \<le> point_x (a ! j)" if "bisect_left a v lo mid \<le> j" "j < hi" for j
        using above [of j] IH that by (cases "j < mid") auto
      with IH show ?thesis
        unfolding eq using mid by auto
    qed
  qed
qed

lemma bisect_left_takeWhile:
  assumes "increasing a" "lo \<le> length a"
  shows "bisect_left a v lo (length a)
           = lo + length (takeWhile (\<lambda>p. point_x p < point_x v) (drop lo a))"
proof -
  let ?r = "bisect_left a v lo (length a)"
  from bisect_left_sorted [OF assms(1,2) le_refl, of v]
  have r: "lo \<le> ?r" "?r \<le> length a"
    and below: "\<And>j. lo \<le> j \<Longrightarrow> j < ?r \<Longrightarrow> point_x (a ! j) < point_x v"
    and above: "\<And>j. ?r \<le> j \<Longrightarrow> j < length a \<Longrightarrow> point_x v \<le> point_x (a ! j)"
    by auto
  have "takeWhile (\<lambda>p. point_x p < point_x v) (drop lo a) = take (?r - lo) (drop lo a)"
  proof (rule takeWhile_eq_take_P_nth)
    fix i assume "i < ?r - lo" "i < length (drop lo a)"
    then show "point_x (drop lo a ! i) < point_x v"
      using below [of "lo + i"] assms(2) by simp
  next
    assume "?r - lo < length (drop lo a)"
    then have "?r < length a" by simp
    then show "\<not> point_x (drop lo a ! (?r - lo)) < point_x v"
      using above [of ?r] r assms(2) by simp
  qed
  then have "length (takeWhile (\<lambda>p. point_x p < point_x v) (drop lo a)) = ?r - lo"
    using r by simp
  with r show ?thesis by simp
qed

lemma getitem_pred:
  "0 < n \<Longrightarrow> n \<le> length a \<Longrightarrow> getitem a (int n - 1) = Inr (a ! (n - 1))"
  by (simp add: getitem_def nat_diff_distrib')

lemma getitem_nat:
  "n < length a \<Longrightarrow> getitem a (int n) = Inr (a ! n)"
  by (simp add: getitem_def)

lemma integrate_end_eq:
  assumes "increasing (A @ [P] @ B)"
  shows "integrate_end W (A @ [P] @ B) (Suc (length A)) right orig
           = Inr (A @ [P] @ tail_after W right orig B)"
proof (cases "B = []")
  case True
  then show ?thesis
    by (simp add: integrate_end_def tail_after_def)
next
  case False
  define a where "a = A @ [P] @ B"
  define lo where "lo = Suc (length A)"
  let ?Q = "\<lambda>p. point_x p < right"
  define j where "j = length (takeWhile ?Q B)"
  define e where "e = lo + j"
  have drop_lo: "drop lo a = B" by (simp add: a_def lo_def)
  have len: "length a = lo + length B" by (simp add: a_def lo_def)
  have pos: "bisect_left a (Point right 0) lo (length a) = e"
    using bisect_left_takeWhile [of a lo "Point right 0"] assms
    by (simp add: drop_lo e_def j_def a_def lo_def)
  have j_le: "j \<le> length B" unfolding j_def by (rule length_takeWhile_le)
  have tw: "takeWhile ?Q B = take j B" unfolding j_def by (rule takeWhile_eq_take)
  have dw: "dropWhile ?Q B = drop j B" unfolding j_def by (rule dropWhile_eq_drop)
  have del: "del_slice a lo e = A @ [P] @ drop j B"
    by (simp add: del_slice_def a_def lo_def e_def)
  have ins: "list_insert (A @ [P] @ drop j B) lo pt = A @ [P] @ [pt] @ drop j B" for pt
    by (simp add: list_insert_def lo_def)
  have start: "\<not> length a \<le> lo" using False by (simp add: len)
  have e_lo: "e = lo \<longleftrightarrow> j = 0" by (simp add: e_def)
  have prev: "getitem a (int e - 1) = Inr (B ! (j - 1))" if "j \<noteq> 0"
  proof -
    have "getitem a (int e - 1) = Inr (a ! (e - 1))"
      by (rule getitem_pred) (use j_le that in \<open>auto simp: e_def len lo_def\<close>)
    moreover have "a ! (e - 1) = B ! (j - 1)"
      using that by (simp add: a_def e_def lo_def nth_append)
    ultimately show ?thesis by simp
  qed
  have last_tw: "last (takeWhile ?Q B) = B ! (j - 1)" if "j \<noteq> 0"
  proof -
    from that j_le have "take j B \<noteq> []" by auto
    then have "last (take j B) = take j B ! (length (take j B) - 1)"
      by (rule last_conv_nth)
    also have "\<dots> = B ! (j - 1)"
      using that j_le by (simp add: min_def)
    finally show ?thesis by (simp only: tw)
  qed
  have tw_nil: "takeWhile ?Q B = [] \<longleftrightarrow> j = 0"
    by (simp add: j_def)
  have ret: "(if e = lo then Inr orig else map_sum id point_y (getitem a (int e - 1)))
               = (Inr (if takeWhile ?Q B = [] then orig else point_y (last (takeWhile ?Q B)))
                   :: error + int)"
    by (cases "j = 0") (simp_all add: e_lo prev last_tw tw_nil)
  have goal: "integrate_end W a lo right orig = Inr (A @ [P] @ tail_after W right orig B)"
  proof (cases "j = length B")
    case True
    then have kept: "dropWhile ?Q B = []"
      using dw by simp
    have bs: "binary_search a (Point right 0) lo (Some (length a)) = Inr (e, False)"
      unfolding binary_search_def Let_def option.case pos using True by (simp add: e_def len)
    show ?thesis
      unfolding integrate_end_def bs sum.case prod.case if_False ret del Let_def ins
      using start True by (simp add: tail_after_def kept)
  next
    case neq: False
    with j_le have lt: "j < length B" by simp
    then have kept: "dropWhile ?Q B \<noteq> []" "hd (dropWhile ?Q B) = B ! j"
      using dw by (simp_all add: hd_drop_conv_nth)
    have "a ! e = B ! j"
      by (simp add: a_def e_def lo_def nth_append)
    then have bs: "binary_search a (Point right 0) lo (Some (length a))
                = Inr (e, point_x (B ! j) = right)"
      unfolding binary_search_def Let_def option.case pos using lt
      by (simp add: Point_cmp_def e_def len)
    show ?thesis
    proof (cases "point_x (B ! j) = right")
      case True
      then show ?thesis
        unfolding integrate_end_def bs sum.case prod.case del
        using start kept dw by (simp add: tail_after_def)
    next
      case nohit: False
      then show ?thesis
        unfolding integrate_end_def bs sum.case prod.case ret del Let_def ins
        using start kept dw by (simp add: tail_after_def)
    qed
  qed
  then show ?thesis
    by (simp add: a_def lo_def)
qed

lemma strictly_increasing_append:
  "strictly_increasing (xs @ ys) \<longleftrightarrow>
     strictly_increasing xs \<and> strictly_increasing ys
     \<and> (\<forall>p\<in>set xs. \<forall>q\<in>set ys. point_x p < point_x q)"
  by (simp add: strictly_increasing_def sorted_wrt_append)

lemma strictly_increasing_Cons:
  "strictly_increasing (p # ps) \<longleftrightarrow>
     strictly_increasing ps \<and> (\<forall>q\<in>set ps. point_x p < point_x q)"
  by (auto simp: strictly_increasing_def)

lemma strictly_increasing_Nil [simp]: "strictly_increasing []"
  by (simp add: strictly_increasing_def)

lemma kept_ge:
  assumes "increasing B" "t \<in> set (dropWhile (\<lambda>p. point_x p < r) B)"
  shows "r \<le> point_x t"
  using assms
  by (induction B) (auto simp: increasing_Cons split: if_splits)

lemma kept_gt:
  assumes "increasing B" "t \<in> set (dropWhile (\<lambda>p. point_x p < r) B)"
    and "dropWhile (\<lambda>p. point_x p < r) B = [] \<or> point_x (hd (dropWhile (\<lambda>p. point_x p < r) B)) \<noteq> r"
  shows "r < point_x t"
  using assms
  by (induction B) (auto simp: increasing_Cons split: if_splits)

lemma strictly_increasing_dropWhile:
  "strictly_increasing B \<Longrightarrow> strictly_increasing (dropWhile Q B)"
  by (simp add: strictly_increasing_def)

lemma tail_after_increasing:
  assumes "strictly_increasing B"
  shows "strictly_increasing (tail_after W r orig B)"
  using assms kept_gt [OF strictly_increasing_increasing [OF assms], of _ r]
  by (auto simp: tail_after_def Let_def strictly_increasing_Cons strictly_increasing_dropWhile)

lemma tail_after_weakly_increasing:
  assumes "increasing B"
  shows "increasing (tail_after W r orig B)"
  using assms kept_ge [OF assms, of _ r]
  by (auto simp: tail_after_def Let_def increasing_Cons increasing_dropWhile)

lemma tail_after_ge:
  assumes "increasing B" "t \<in> set (tail_after W r orig B)"
  shows "r \<le> point_x t"
  using assms kept_ge [OF assms(1), of t r]
  by (auto simp: tail_after_def Let_def split: if_splits)

lemma tail_after_inside:
  assumes "\<forall>b\<in>set B. point_x b < W" "t \<in> set (tail_after W r orig B)"
  shows "point_x t < W"
  using assms
  by (auto simp: tail_after_def Let_def split: if_splits dest: set_dropWhileD)

lemma tail_after_heights:
  assumes "\<forall>b\<in>set B. point_y b \<le> H" "orig \<le> H" "t \<in> set (tail_after W r orig B)"
  shows "point_y t \<le> H"
proof -
  have "point_y (last (takeWhile (\<lambda>p. point_x p < r) B)) \<le> H"
    if "takeWhile (\<lambda>p. point_x p < r) B \<noteq> []"
    using last_in_set [OF that] assms(1) by (auto dest: set_takeWhileD)
  then show ?thesis
    using assms
    by (auto simp: tail_after_def Let_def split: if_splits dest: set_dropWhileD)
qed

lemma bisect_left_split:
  assumes "increasing (A @ B)" "\<forall>a\<in>set A. point_x a < point_x v"
    and "B = [] \<or> point_x v \<le> point_x (hd B)"
  shows "bisect_left (A @ B) v 0 (length (A @ B)) = length A"
proof -
  have "takeWhile (\<lambda>p. point_x p < point_x v) B = []"
    using assms(3) by (cases B) auto
  then have "takeWhile (\<lambda>p. point_x p < point_x v) (A @ B) = A"
    using assms(2) by (simp add: takeWhile_append2)
  with bisect_left_takeWhile [OF assms(1), of 0 v] show ?thesis
    by simp
qed

lemma integrateRectangle_hit:
  assumes slices: "heightSlices self = A @ [Q] @ B"
    and inc: "increasing (A @ [Q] @ B)"
    and A: "\<forall>a\<in>set A. point_x a < left"
    and left: "point_x Q = left"
  shows "integrateRectangle self left width bottom
           = Inr (self\<lparr>heightSlices :=
                    A @ [Point left bottom]
                      @ tail_after (packingAreaWidth self) (left + width) (point_y Q) B\<rparr>)"
proof -
  let ?P = "Point left bottom"
  have pos: "bisect_left (A @ [Q] @ B) (Point left 0) 0 (length (A @ [Q] @ B)) = length A"
    using inc left A bisect_left_split [of A "[Q] @ B" "Point left 0"]
    by auto
  have bs: "binary_search (heightSlices self) (Point left 0) 0 None = Inr (length A, True)"
    unfolding slices binary_search_def Let_def option.case pos
    using left by (simp add: Point_cmp_def)
  have get: "getitem (heightSlices self) (int (length A)) = Inr Q"
    unfolding slices by (subst getitem_nat) simp_all
  have upd: "(heightSlices self)[length A := ?P] = A @ [?P] @ B"
    unfolding slices by simp
  have inc': "increasing (A @ [?P] @ B)"
    using inc left by (auto simp: increasing_append increasing_Cons)
  show ?thesis
    unfolding integrateRectangle_def bs sum.case prod.case if_True get upd
    using integrate_end_eq [OF inc', of "packingAreaWidth self" "left + width"] by simp
qed

lemma integrateRectangle_mid:
  assumes slices: "heightSlices self = A @ B"
    and inc: "increasing (A @ B)"
    and A: "A \<noteq> []" "\<forall>a\<in>set A. point_x a < left"
    and B: "\<forall>b\<in>set B. left < point_x b"
  shows "integrateRectangle self left width bottom
           = Inr (self\<lparr>heightSlices :=
                    A @ [Point left bottom]
                      @ tail_after (packingAreaWidth self) (left + width) (point_y (last A)) B\<rparr>)"
proof -
  let ?P = "Point left bottom"
  have pos: "bisect_left (A @ B) (Point left 0) 0 (length (A @ B)) = length A"
    using inc A B bisect_left_split [of A B "Point left 0"]
    by (cases B) auto
  have nohit: "length A < length (A @ B) \<Longrightarrow> Point_cmp ((A @ B) ! length A) (Point left 0) \<noteq> 0"
    using B by (cases B) (auto simp: Point_cmp_def)
  have bs: "binary_search (heightSlices self) (Point left 0) 0 None = Inr (length A, False)"
    unfolding slices binary_search_def Let_def option.case pos
    using nohit by auto
  have "getitem (A @ B) (int (length A) - 1) = Inr ((A @ B) ! (length A - 1))"
    by (rule getitem_pred) (use A(1) in auto)
  also have "(A @ B) ! (length A - 1) = last A"
    using A(1) by (simp add: nth_append last_conv_nth)
  finally have get: "getitem (heightSlices self) (int (length A) - 1) = Inr (last A)"
    unfolding slices .
  have ins: "list_insert (heightSlices self) (length A) ?P = A @ [?P] @ B"
    unfolding slices by (simp add: list_insert_def)
  have inc': "increasing (A @ [?P] @ B)"
    using inc A B by (fastforce simp: increasing_append increasing_Cons)
  show ?thesis
    unfolding integrateRectangle_def bs sum.case prod.case if_False get ins
    using integrate_end_eq [OF inc', of "packingAreaWidth self" "left + width"] by simp
qed

lemma coverage:
  assumes inc: "strictly_increasing slices" and ne: "slices \<noteq> []" and hd: "point_x (hd slices) = 0"
    and c: "0 \<le> c" "c < W"
  shows "\<exists>!i. i < length slices \<and> c \<in> span W slices i"
proof (rule ex_ex1I)
  let ?Q = "\<lambda>p. point_x p \<le> c"
  define n where "n = length (takeWhile ?Q slices)"
  have "takeWhile ?Q slices \<noteq> []"
    using ne hd c by (cases slices) auto
  then have n: "0 < n" "n \<le> length slices"
    by (auto simp: n_def length_takeWhile_le)
  have "takeWhile ?Q slices ! (n - 1) \<in> set (takeWhile ?Q slices)"
    using n by (intro nth_mem) (simp add: n_def)
  then have "?Q (takeWhile ?Q slices ! (n - 1))"
    by (auto dest: set_takeWhileD)
  then have low: "point_x (slices ! (n - 1)) \<le> c"
    using n by (simp add: takeWhile_nth n_def)
  have up: "c < point_x (slices ! n)" if "n < length slices"
    using nth_length_takeWhile [of ?Q slices] that by (simp add: n_def)
  show "\<exists>i. i < length slices \<and> c \<in> span W slices i"
    using n low up c by (intro exI [of _ "n - 1"]) (auto simp: span_def)
next
  fix i j
  assume i: "i < length slices \<and> c \<in> span W slices i"
    and j: "j < length slices \<and> c \<in> span W slices j"
  have no: False if "a < b" "b < length slices" "c \<in> span W slices a" "c \<in> span W slices b" for a b
  proof -
    from that have "c < point_x (slices ! Suc a)" "point_x (slices ! b) \<le> c"
      by (auto simp: span_def split: if_splits)
    moreover have "point_x (slices ! Suc a) \<le> point_x (slices ! b)"
      using that by (intro strictly_increasing_nth_le [OF inc]) auto
    ultimately show False by simp
  qed
  from no [of i j] no [of j i] i j show "i = j"
    by (cases i j rule: linorder_cases) auto
qed

lemma profile_okI:
  assumes "strictly_increasing slices" "slices \<noteq> []" "point_x (hd slices) = 0"
    and "\<forall>p\<in>set slices. point_y p \<le> H"
  shows "profile_ok W H slices"
  using assms coverage [OF assms(1,2,3)] by (simp add: profile_ok_def)

lemma profile_ok_integrated:
  assumes ok: "profile_ok W H (A @ M @ B)"
    and M: "M = [] \<and> A \<noteq> [] \<or> M = [Q] \<and> point_x Q = left"
    and A: "\<forall>a\<in>set A. point_x a < left"
    and B: "\<forall>b\<in>set B. left < point_x b"
    and dims: "0 \<le> left" "1 \<le> width" "bottom \<le> H" "orig \<le> H"
  shows "profile_ok W H (A @ [Point left bottom] @ tail_after W' (left + width) orig B)"
proof (rule profile_okI)
  let ?T = "tail_after W' (left + width) orig B"
  from ok have inc: "strictly_increasing (A @ M @ B)" and hd: "point_x (hd (A @ M @ B)) = 0"
    and hs: "\<forall>p\<in>set (A @ M @ B). point_y p \<le> H"
    by (auto simp: profile_ok_def)
  from inc have incA: "strictly_increasing A" and incB: "strictly_increasing B"
    by (auto simp: strictly_increasing_append)
  have T: "\<forall>t\<in>set ?T. left < point_x t"
    using tail_after_ge [OF strictly_increasing_increasing [OF incB]] dims(2) by fastforce
  have AT: "point_x p < point_x q" if "p \<in> set A" "q \<in> set ?T" for p q
    using A T that by fastforce
  show "strictly_increasing (A @ [Point left bottom] @ ?T)"
    using incA tail_after_increasing [OF incB] A T AT
    by (auto simp: strictly_increasing_append strictly_increasing_Cons)
  show "A @ [Point left bottom] @ ?T \<noteq> []" by simp
  show "point_x (hd (A @ [Point left bottom] @ ?T)) = 0"
    using hd M by (cases A) auto
  show "\<forall>p\<in>set (A @ [Point left bottom] @ ?T). point_y p \<le> H"
    using hs dims tail_after_heights [of B H orig _ W' "left + width"] by auto
qed

lemma integrateRectangle_profile_ok:
  assumes ok: "profile_ok (packingAreaWidth self) (packingAreaHeight self) (heightSlices self)"
    and dims: "0 \<le> left" "1 \<le> width" "bottom \<le> packingAreaHeight self"
  shows "\<exists>self'. integrateRectangle self left width bottom = Inr self'
           \<and> profile_ok (packingAreaWidth self) (packingAreaHeight self) (heightSlices self')
           \<and> packingAreaWidth self' = packingAreaWidth self
           \<and> packingAreaHeight self' = packingAreaHeight self"
proof -
  let ?W = "packingAreaWidth self" and ?H = "packingAreaHeight self"
  let ?Q = "\<lambda>p. point_x p < left"
  define A where "A = takeWhile ?Q (heightSlices self)"
  define R where "R = dropWhile ?Q (heightSlices self)"
  have split: "heightSlices self = A @ R" by (simp add: A_def R_def)
  from ok have inc: "strictly_increasing (A @ R)" and ne: "A @ R \<noteq> []"
    and hd: "point_x (hd (A @ R)) = 0" and hs: "\<forall>p\<in>set (A @ R). point_y p \<le> ?H"
    by (auto simp: profile_ok_def split)
  have A: "\<forall>a\<in>set A. point_x a < left"
    by (auto simp: A_def dest: set_takeWhileD)
  have incR: "strictly_increasing R"
    using inc by (simp add: strictly_increasing_append)
  show ?thesis
  proof (cases "R \<noteq> [] \<and> point_x (hd R) = left")
    case True
    then obtain Q B where R: "R = Q # B" and Q: "point_x Q = left"
      by (cases R) auto
    have B: "\<forall>b\<in>set B. left < point_x b"
      using incR Q by (auto simp: R strictly_increasing_Cons)
    have eq: "A @ R = A @ [Q] @ B" by (simp add: R)
    have "profile_ok ?W ?H (A @ [Point left bottom] @ tail_after ?W (left + width) (point_y Q) B)"
      using ok hs dims Q A B
      by (intro profile_ok_integrated [where M = "[Q]" and Q = Q]) (auto simp: split eq)
    moreover have "integrateRectangle self left width bottom
           = Inr (self\<lparr>heightSlices :=
                    A @ [Point left bottom] @ tail_after ?W (left + width) (point_y Q) B\<rparr>)"
      using strictly_increasing_increasing [OF inc] Q A
      by (intro integrateRectangle_hit) (simp_all add: split eq)
    ultimately show ?thesis by simp
  next
    case False
    then have free: "dropWhile ?Q (heightSlices self) = []
        \<or> point_x (hd (dropWhile ?Q (heightSlices self))) \<noteq> left"
      by (auto simp: R_def)
    have "strictly_increasing (heightSlices self)"
      using inc by (simp only: split)
    from kept_gt [OF strictly_increasing_increasing [OF this] _ free]
    have B: "\<forall>b\<in>set R. left < point_x b"
      by (simp add: R_def)
    have "A \<noteq> []"
    proof
      assume "A = []"
      with ne hd have "R \<noteq> []" "point_x (hd R) = 0" by auto
      with B have "left < 0" by (cases R) auto
      with dims(1) show False by simp
    qed
    then have "last A \<in> set A" by simp
    with hs have orig: "point_y (last A) \<le> ?H" by auto
    have "profile_ok ?W ?H (A @ [Point left bottom] @ tail_after ?W (left + width) (point_y (last A)) R)"
      using ok dims A B \<open>A \<noteq> []\<close> orig
      by (intro profile_ok_integrated [where M = "[]"]) (auto simp: split)
    moreover have "integrateRectangle self left width bottom
           = Inr (self\<lparr>heightSlices :=
                    A @ [Point left bottom] @ tail_after ?W (left + width) (point_y (last A)) R\<rparr>)"
      using strictly_increasing_increasing [OF inc] A B \<open>A \<noteq> []\<close>
      by (intro integrateRectangle_mid) (simp_all add: split)
    ultimately show ?thesis by simp
  qed
qed

lemma tryFindBestPlacement_total:
  assumes "heightSlices self \<noteq> []"
  shows "\<exists>r. tryFindBestPlacement self w h = Inr r"
proof -
  let ?r = "bisect_left (heightSlices self) (Point w 0) 0 (length (heightSlices self))"
  let ?b = "(None, 0, packingAreaWidth self * packingAreaHeight self)"
  from assms have "0 < length (heightSlices self)" by simp
  from search_loop_no_error [OF this, of w h ?r ?b]
  obtain b y s where run: "search_loop self w h 0 ?r ?b = Inr (b, y, s)"
    by (cases "search_loop self w h 0 ?r ?b") auto
  have "candidate_ok self h ?b"
    by (simp add: candidate_ok_def)
  from search_loop_candidate_ok [OF run this] have "b = Some i \<Longrightarrow> i < length (heightSlices self)" for i
    by (simp add: candidate_ok_def)
  then show ?thesis
    by (cases b) (simp_all add: tryFindBestPlacement_def run)
qed

lemma profile_ok_x_nonneg:
  assumes "profile_ok W H slices" "i < length slices"
  shows "0 \<le> point_x (slices ! i)"
proof -
  from assms have "point_x (slices ! 0) \<le> point_x (slices ! i)"
    by (intro strictly_increasing_nth_le) (auto simp: profile_ok_def)
  moreover from assms have "slices \<noteq> []" "point_x (hd slices) = 0"
    by (simp_all add: profile_ok_def)
  then have "point_x (slices ! 0) = 0"
    by (simp add: hd_conv_nth)
  ultimately show ?thesis by simp
qed

lemma TryPack_profile_ok:
  assumes ok: "profile_ok (packingAreaWidth self) (packingAreaHeight self) (heightSlices self)"
    and w: "1 \<le> w"
  shows "\<exists>placement self'. TryPack self w h = Inr (placement, self')
           \<and> profile_ok (packingAreaWidth self) (packingAreaHeight self) (heightSlices self')
           \<and> packingAreaWidth self' = packingAreaWidth self
           \<and> packingAreaHeight self' = packingAreaHeight self"
proof (cases "w > packingAreaWidth self \<or> h > packingAreaHeight self")
  case True
  with ok show ?thesis by (simp add: TryPack_def)
next
  case False
  from ok have "heightSlices self \<noteq> []" by (simp add: profile_ok_def)
  from tryFindBestPlacement_total [OF this] obtain r where r: "tryFindBestPlacement self w h = Inr r"
    by blast
  show ?thesis
  proof (cases r)
    case None
    with False r ok show ?thesis by (simp add: TryPack_def)
  next
    case (Some p)
    from tryFindBestPlacement_sound [OF r [unfolded Some]]
    obtain i where i: "i < length (heightSlices self)" "point_x p = point_x (heightSlices self ! i)"
      and y: "point_y p + h < packingAreaHeight self"
      by auto
    from profile_ok_x_nonneg [OF ok i(1)] i(2) have "0 \<le> point_x p" by simp
    from integrateRectangle_profile_ok [OF ok this w, of "point_y p + h"] y
    obtain self' where "integrateRectangle self (point_x p) w (point_y p + h) = Inr self'"
      "profile_ok (packingAreaWidth self) (packingAreaHeight self) (heightSlices self')"
      "packingAreaWidth self' = packingAreaWidth self"
      "packingAreaHeight self' = packingAreaHeight self"
      by auto
    with False r Some show ?thesis by (simp add: TryPack_def)
  qed
qed

lemma TryPack_all_profile_ok:
  assumes "profile_ok (packingAreaWidth self) (packingAreaHeight self) (heightSlices self)"
    and "\<forall>req\<in>set reqs. 1 \<le> fst req"
  shows "\<exists>placements final. TryPack_all self reqs = Inr (placements, final)
           \<and> profile_ok (packingAreaWidth self) (packingAreaHeight self) (heightSlices final)
           \<and> packingAreaWidth final = packingAreaWidth self
           \<and> packingAreaHeight final = packingAreaHeight self"
  using assms
proof (induction reqs arbitrary: self)
  case Nil
  then show ?case by simp
next
  case (Cons req reqs)
  obtain w h where req: "req = (w, h)" by (cases req)
  with Cons.prems(2) have w: "1 \<le> w" by simp
  from TryPack_profile_ok [OF Cons.prems(1) w, of h]
  obtain placement self' where one: "TryPack self w h = Inr (placement, self')"
    and ok': "profile_ok (packingAreaWidth self) (packingAreaHeight self) (heightSlices self')"
    and same: "packingAreaWidth self' = packingAreaWidth self"
      "packingAreaHeight self' = packingAreaHeight self"
    by blast
  from Cons.IH [of self'] ok' same Cons.prems(2)
  obtain placements final where "TryPack_all self' reqs = Inr (placements, final)"
    "profile_ok (packingAreaWidth self) (packingAreaHeight self) (heightSlices final)"
    "packingAreaWidth final = packingAreaWidth self"
    "packingAreaHeight final = packingAreaHeight self"
    by auto
  with one show ?case by (simp add: req)
qed

lemma profile_ok_init: "0 \<le> H \<Longrightarrow> profile_ok W H (heightSlices (init W H))"
  by (intro profile_okI) (simp_all add: init_def strictly_increasing_def)

text \<open>
  C6, amended. On a packer whose area height is not negative, after any sequence of
  \<^verbatim>\<open>TryPack\<close> calls whose widths are all at least 1 (no call raises, and) the profile
  has strictly increasing x-values, starts at x = 0, covers every column of the area by
  exactly one span, and has no height above the area height. \<^verbatim>\<open>integrateRectangle\<close>
  keeps this invariant in all its branches (direct hit or start inside a slice, end on a
  breakpoint or inside a slice, tail truncated, right edge on the area boundary or beyond):
  for every left edge that is not negative, every width of at least 1 and every bottom
  that is at most the area height.
\<close>

theorem profile_invariant:
  "(0 \<le> H \<and> (\<forall>req\<in>set reqs. 1 \<le> fst req) \<longrightarrow>
      (\<exists>placements final. TryPack_all (init W H) reqs = Inr (placements, final)
         \<and> profile_ok W H (heightSlices final)))
   \<and> (profile_ok (packingAreaWidth self) (packingAreaHeight self) (heightSlices self)
        \<and> 0 \<le> left \<and> 1 \<le> width \<and> bottom \<le> packingAreaHeight self \<longrightarrow>
      (\<exists>self'. integrateRectangle self left width bottom = Inr self'
         \<and> profile_ok (packingAreaWidth self) (packingAreaHeight self) (heightSlices self')))"
proof (intro conjI impI)
  assume "0 \<le> H \<and> (\<forall>req\<in>set reqs. 1 \<le> fst req)"
  with TryPack_all_profile_ok [of "init W H" reqs] profile_ok_init [of H W]
  show "\<exists>placements final. TryPack_all (init W H) reqs = Inr (placements, final)
         \<and> profile_ok W H (heightSlices final)"
    by (auto simp: init_def)
next
  assume "profile_ok (packingAreaWidth self) (packingAreaHeight self) (heightSlices self)
        \<and> 0 \<le> left \<and> 1 \<le> width \<and> bottom \<le> packingAreaHeight self"
  with integrateRectangle_profile_ok [of self left width bottom]
  show "\<exists>self'. integrateRectangle self left width bottom = Inr self'
         \<and> profile_ok (packingAreaWidth self) (packingAreaHeight self) (heightSlices self')"
    by blast
qed

theorem profile_invariant_witness:
  "(0::int) \<le> 10 \<and> list_all (\<lambda>req. 1 \<le> fst req) [(4, 3), (4, 3), (4::int, 3::int)]
   \<and> (\<exists>placements final. TryPack_all (init 10 10) [(4, 3), (4, 3), (4, 3)] = Inr (placements, final)
         \<and> profile_ok 10 10 (heightSlices final))
   \<and> profile_ok 10 10 [Point 0 3, Point 4 0]
   \<and> (\<exists>self'. integrateRectangle
          \<lparr>packingAreaWidth = 10, packingAreaHeight = 10, heightSlices = [Point 0 3, Point 4 0]\<rparr>
          2 4 5 = Inr self'
         \<and> profile_ok 10 10 (heightSlices self'))"
proof -
  have ok: "profile_ok 10 10 [Point 0 3, Point 4 0]"
    by (intro profile_okI) (simp_all add: strictly_increasing_def)
  from profile_invariant
    [where H = 10 and W = 10 and reqs = "[(4, 3), (4, 3), (4, 3)]"
       and self = "\<lparr>packingAreaWidth = 10, packingAreaHeight = 10, heightSlices = [Point 0 3, Point 4 0]\<rparr>"
       and left = 2 and width = 4 and bottom = 5]
  show ?thesis
    using ok by simp
qed

text \<open>
  C6, as stated, fails for a rectangle of width 0, which leaves two breakpoints at the
  same x, and for a fresh packer with a negative area height, whose only breakpoint is
  higher than the area.
\<close>

theorem profile_invariant_counterexample:
  "TryPack_all (init 10 10) [(0, 3)]
     = Inr ([Some (Point 0 0)],
            \<lparr>packingAreaWidth = 10, packingAreaHeight = 10, heightSlices = [Point 0 3, Point 0 0]\<rparr>)
   \<and> \<not> profile_ok 10 10 [Point 0 3, Point 0 0]
   \<and> \<not> profile_ok 10 (- 1) (heightSlices (init 10 (- 1)))"
proof -
  have "TryPack_all (init 10 10) [(0, 3)]
     = Inr ([Some (Point 0 0)],
            \<lparr>packingAreaWidth = 10, packingAreaHeight = 10, heightSlices = [Point 0 3, Point 0 0]\<rparr>)"
    by code_simp
  moreover have "\<not> profile_ok 10 10 [Point 0 3, Point 0 0]"
    by (simp add: profile_ok_def strictly_increasing_def)
  moreover have "\<not> profile_ok 10 (- 1) (heightSlices (init 10 (- 1)))"
    by (simp add: profile_ok_def init_def)
  ultimately show ?thesis by blast
qed

section \<open>Committed rectangles never overlap\<close>

lemma fold_highest_ge:
  "a \<le> fold (\<lambda>index highest. if point_y (slices ! index) > highest
                 then point_y (slices ! index) else highest) xs a"
  "i \<in> set xs \<Longrightarrow> point_y (slices ! i)
     \<le> fold (\<lambda>index highest. if point_y (slices ! index) > highest
                 then point_y (slices ! index) else highest) xs a"
proof (induction xs arbitrary: a)
  case Nil
  { case 1 show ?case by simp }
  { case 2 then show ?case by simp }
next
  case (Cons x xs)
  { case 1
    show ?case using Cons.IH(1) [of "if a < point_y (slices ! x) then point_y (slices ! x) else a"]
      by (simp split: if_splits) }
  { case 2
    then show ?case
      using Cons.IH(1) [of "if a < point_y (slices ! x) then point_y (slices ! x) else a"]
        Cons.IH(2) [of "if a < point_y (slices ! x) then point_y (slices ! x) else a"]
      by (auto split: if_splits) }
qed

lemma highest_slice_ge:
  assumes "l \<le> j" "j < r"
  shows "point_y (slices ! j) \<le> highest_slice slices l r"
proof (cases "j = l")
  case True
  then show ?thesis
    unfolding highest_slice_def by (simp add: fold_highest_ge(1))
next
  case False
  with assms have "j \<in> set [l + 1 ..< r]" by simp
  then show ?thesis
    unfolding highest_slice_def by (rule fold_highest_ge(2))
qed

lemma advance_right_spec:
  "r \<le> advance_right slices W e r
   \<and> (advance_right slices W e r \<le> length slices \<longrightarrow>
        e < (if advance_right slices W e r = length slices then W
             else point_x (slices ! advance_right slices W e r)))"
proof (induction slices W e r rule: advance_right.induct)
  case (1 slices W e r)
  show ?case
  proof (cases "r \<le> length slices")
    case False
    then show ?thesis
      by (subst (1 2 3 4) advance_right.simps) simp
  next
    case True
    define start where "start = (if r = length slices then W else point_x (slices ! r))"
    show ?thesis
    proof (cases "start > e")
      case stop: True
      then have "advance_right slices W e r = r"
        using True by (subst advance_right.simps) (simp add: start_def)
      with stop show ?thesis by (auto simp: start_def split: if_splits)
    next
      case go: False
      then have eq: "advance_right slices W e r = advance_right slices W e (r + 1)"
        using True by (subst advance_right.simps) (simp add: start_def)
      from "1.IH" [OF True start_def go] show ?thesis
        unfolding eq by auto
    qed
  qed
qed

lemma keep_best_clear_above:
  assumes "clear_above self w best" "window_ok (heightSlices self) w l r"
    and "l < length (heightSlices self)"
    and "point_x (heightSlices self ! l) + w \<le> packingAreaWidth self"
  shows "clear_above self w (keep_best self h l r best)"
proof -
  have "point_y (heightSlices self ! j) \<le> highest_slice (heightSlices self) l r"
    if "l \<le> j" "j < length (heightSlices self)"
      "point_x (heightSlices self ! j) < point_x (heightSlices self ! l) + w" for j
    using that assms(2) by (intro highest_slice_ge) (auto simp: window_ok_def)
  with assms(1,3,4) show ?thesis
    unfolding clear_above_def keep_best_def Let_def by (cases best) auto
qed

lemma window_ok_next:
  assumes inc: "increasing slices"
    and r': "advance_right slices W (point_x (slices ! Suc l) + w) r \<le> length slices"
  shows "window_ok slices w (Suc l) (advance_right slices W (point_x (slices ! Suc l) + w) r)"
  unfolding window_ok_def
proof (intro allI impI)
  let ?r' = "advance_right slices W (point_x (slices ! Suc l) + w) r"
  fix j
  assume j: "Suc l \<le> j \<and> j < length slices \<and> point_x (slices ! j) < point_x (slices ! Suc l) + w"
  show "j < ?r'"
  proof (rule ccontr)
    assume "\<not> j < ?r'"
    then have le: "?r' \<le> j" by simp
    with j have "?r' \<noteq> length slices" by auto
    with advance_right_spec [of r slices W "point_x (slices ! Suc l) + w"] r'
    have "point_x (slices ! Suc l) + w < point_x (slices ! ?r')" by simp
    also have "\<dots> \<le> point_x (slices ! j)"
      using le j by (intro increasing_nth_le [OF inc]) auto
    finally show False using j by simp
  qed
qed

lemma inside_nth:
  assumes "inside W slices" "0 < i" "i < length slices"
  shows "point_x (slices ! i) < W"
proof -
  from assms(2,3) have "slices ! i = tl slices ! (i - 1)"
    by (cases slices) (auto simp: nth_Cons')
  moreover from assms(2,3) have "tl slices ! (i - 1) \<in> set (tl slices)"
    by (intro nth_mem) auto
  ultimately show ?thesis
    using assms(1) by (simp add: inside_def)
qed

lemma fits_next:
  assumes ins: "inside W slices" and inc: "increasing slices" and zero: "point_x (slices ! 0) = 0"
    and l: "Suc l < length slices" and w: "0 \<le> w"
    and r': "advance_right slices W (point_x (slices ! Suc l) + w) r \<le> length slices"
  shows "point_x (slices ! Suc l) + w \<le> W"
proof -
  let ?e = "point_x (slices ! Suc l) + w"
  let ?r' = "advance_right slices W ?e r"
  from increasing_nth_le [OF inc _ l, of 0] zero w have e: "0 \<le> ?e" by simp
  show ?thesis
  proof (cases "?r' = length slices")
    case True
    with advance_right_spec [of r slices W ?e] show ?thesis
      by simp
  next
    case False
    with r' have lt: "?r' < length slices" by simp
    from advance_right_spec [of r slices W ?e] r' False
    have beyond: "?e < point_x (slices ! ?r')" by simp
    have "?r' \<noteq> 0"
    proof
      assume "?r' = 0"
      with beyond zero have "?e < 0" by simp
      with e show False by simp
    qed
    then have "0 < ?r'" by simp
    from beyond inside_nth [OF ins this lt] show ?thesis by simp
  qed
qed

lemma window_ok_first:
  assumes inc: "increasing slices" and zero: "point_x (slices ! 0) = 0"
  shows "window_ok slices w 0 (bisect_left slices (Point w 0) 0 (length slices))"
proof -
  let ?r = "bisect_left slices (Point w 0) 0 (length slices)"
  from bisect_left_sorted [OF inc, of 0 "length slices" "Point w 0"]
  have above: "\<And>j. ?r \<le> j \<Longrightarrow> j < length slices \<Longrightarrow> w \<le> point_x (slices ! j)"
    by simp
  show ?thesis
    unfolding window_ok_def
  proof (intro allI impI)
    fix j
    assume j: "0 \<le> j \<and> j < length slices \<and> point_x (slices ! j) < point_x (slices ! 0) + w"
    show "j < ?r"
    proof (rule ccontr)
      assume "\<not> j < ?r"
      with above [of j] j zero show False by simp
    qed
  qed
qed

lemma tryFindBestPlacement_clear:
  assumes ok: "skyline_ok (packingAreaWidth self) (heightSlices self)"
    and w: "0 \<le> w" "w \<le> packingAreaWidth self"
    and res: "tryFindBestPlacement self w h = Inr (Some p)"
  shows "\<exists>i. i < length (heightSlices self)
           \<and> point_x p = point_x (heightSlices self ! i)
           \<and> point_x p + w \<le> packingAreaWidth self
           \<and> (\<forall>j. i \<le> j \<and> j < length (heightSlices self)
                    \<and> point_x (heightSlices self ! j) < point_x p + w
                  \<longrightarrow> point_y (heightSlices self ! j) \<le> point_y p)"
proof -
  let ?s = "heightSlices self" and ?W = "packingAreaWidth self"
  let ?r = "bisect_left ?s (Point w 0) 0 (length ?s)"
  let ?b = "(None, 0, packingAreaWidth self * packingAreaHeight self)"
  from ok have inc: "increasing ?s" and ne: "?s \<noteq> []" and hd: "point_x (hd ?s) = 0"
    and ins: "inside ?W ?s"
    by (auto simp: skyline_ok_def)
  from ne hd have zero: "point_x (?s ! 0) = 0" by (simp add: hd_conv_nth)
  from res obtain i y s where run: "search_loop self w h 0 ?r ?b = Inr (Some i, y, s)"
    and p: "p = Point (point_x (?s ! i)) y"
    by (auto simp: tryFindBestPlacement_def Let_def split: sum.splits option.splits if_splits)
  define I where "I = (\<lambda>l r best. l < length ?s \<and> window_ok ?s w l r
      \<and> point_x (?s ! l) + w \<le> ?W \<and> clear_above self w best)"
  have "clear_above self w (Some i, y, s)"
  proof (rule search_loop_rule [where I = I, OF run])
    show "I 0 ?r ?b"
      using ne zero w window_ok_first [OF inc zero, of w]
      by (simp add: I_def clear_above_def)
  next
    fix l r best
    assume "I l r best" "r \<le> length ?s" "l < length ?s"
    then show "clear_above self w (keep_best self h l r best)"
      by (auto simp: I_def intro: keep_best_clear_above)
  next
    fix l r best
    let ?r' = "advance_right ?s ?W (point_x (?s ! Suc l) + w) r"
    assume I: "I l r best" and "r \<le> length ?s" and l: "Suc l < length ?s" and r': "?r' \<le> length ?s"
    from I have "clear_above self w (keep_best self h l r best)"
      by (auto simp: I_def intro: keep_best_clear_above)
    moreover have "window_ok ?s w (Suc l) ?r'"
      using inc r' by (rule window_ok_next)
    moreover have "point_x (?s ! Suc l) + w \<le> ?W"
      using ins inc zero l w(1) r' by (rule fits_next)
    ultimately show "I (Suc l) ?r' (keep_best self h l r best)"
      using l by (simp add: I_def)
  next
    fix l r best
    assume "I l r best"
    then show "clear_above self w best" by (simp add: I_def)
  qed
  with p show ?thesis
    by (auto simp: clear_above_def)
qed

lemma filter_le_takeWhile:
  assumes "increasing slices"
  shows "filter (\<lambda>p. point_x p \<le> c) slices = takeWhile (\<lambda>p. point_x p \<le> c) slices"
  using assms
proof (induction slices)
  case Nil
  then show ?case by simp
next
  case (Cons p ps)
  show ?case
  proof (cases "point_x p \<le> c")
    case True
    with Cons show ?thesis by (simp add: increasing_Cons)
  next
    case False
    with Cons.prems have "\<forall>q\<in>set ps. \<not> point_x q \<le> c"
      by (fastforce simp: increasing_Cons)
    then have "filter (\<lambda>p. point_x p \<le> c) ps = []"
      by (simp add: filter_empty_conv)
    with False show ?thesis by simp
  qed
qed

lemma height_at_nth:
  assumes inc: "increasing slices" and i: "i < length slices" "point_x (slices ! i) \<le> c"
  shows "\<exists>j. i \<le> j \<and> j < length slices \<and> point_x (slices ! j) \<le> c
           \<and> height_at slices c = point_y (slices ! j)"
proof -
  let ?Q = "\<lambda>p. point_x p \<le> c"
  define n where "n = length (takeWhile ?Q slices)"
  have n_le: "n \<le> length slices" by (simp add: n_def length_takeWhile_le)
  have "i < n"
  proof (rule ccontr)
    assume "\<not> i < n"
    then have "n \<le> i" by simp
    with i have "n < length slices" by simp
    then have "\<not> ?Q (slices ! n)"
      unfolding n_def by (rule nth_length_takeWhile)
    moreover have "point_x (slices ! n) \<le> point_x (slices ! i)"
      using \<open>n \<le> i\<close> i(1) by (intro increasing_nth_le [OF inc])
    ultimately show False using i(2) by simp
  qed
  have tw: "takeWhile ?Q slices = take n slices"
    unfolding n_def by (rule takeWhile_eq_take)
  have ne: "take n slices \<noteq> []" using \<open>i < n\<close> i(1) by auto
  have "last (take n slices) = take n slices ! (length (take n slices) - 1)"
    using ne by (rule last_conv_nth)
  also have "\<dots> = slices ! (n - 1)"
    using \<open>i < n\<close> n_le by (simp add: min_def)
  finally have last: "last (takeWhile ?Q slices) = slices ! (n - 1)"
    by (simp only: tw)
  have "slices ! (n - 1) \<in> set (takeWhile ?Q slices)"
    using last ne tw by (metis last_in_set)
  then have "?Q (slices ! (n - 1))"
    by (auto dest: set_takeWhileD)
  moreover have "height_at slices c = point_y (slices ! (n - 1))"
    by (simp add: height_at_def filter_le_takeWhile [OF inc] last)
  ultimately show ?thesis
    using \<open>i < n\<close> n_le by (intro exI [of _ "n - 1"]) auto
qed

lemma height_at_integrated:
  assumes inc: "increasing (A @ [Q] @ B)"
    and A: "\<forall>a\<in>set A. point_x a < left"
    and left: "point_x Q = left" "left \<le> right"
    and c: "c < W"
  shows "height_at (A @ [Point left bottom] @ tail_after W right (point_y Q) B) c
           = (if left \<le> c \<and> c < right then bottom else height_at (A @ [Q] @ B) c)"
proof -
  let ?F = "filter (\<lambda>p. point_x p \<le> c)"
  let ?T = "tail_after W right (point_y Q) B"
  let ?B1 = "takeWhile (\<lambda>p. point_x p < right) B"
  let ?B2 = "dropWhile (\<lambda>p. point_x p < right) B"
  from inc have incB: "increasing B" and B: "\<forall>b\<in>set B. left \<le> point_x b"
    using left(1) by (auto simp: increasing_append increasing_Cons)
  have T: "\<forall>t\<in>set ?T. right \<le> point_x t"
    using tail_after_ge [OF incB] by blast
  consider (before) "c < left" | (under) "left \<le> c" "c < right" | (after) "right \<le> c"
    by linarith
  then show ?thesis
  proof cases
    case before
    then have "?F B = []" "?F ?T = []"
      using B T left(2) by (fastforce simp: filter_empty_conv)+
    with before left(1) show ?thesis
      by (simp add: height_at_def)
  next
    case under
    then have "?F ?T = []"
      using T by (auto simp: filter_empty_conv)
    with under show ?thesis
      by (simp add: height_at_def)
  next
    case after
    have FB1: "?F ?B1 = ?B1"
      using after by (auto simp: filter_id_conv dest: set_takeWhileD)
    have "?F B = ?F (?B1 @ ?B2)" by simp
    also have "\<dots> = ?B1 @ ?F ?B2"
      by (simp only: filter_append FB1)
    finally have FB: "?F B = ?B1 @ ?F ?B2" .
    have old: "height_at (A @ [Q] @ B) c
        = point_y (if ?F ?B2 \<noteq> [] then last (?F ?B2) else if ?B1 \<noteq> [] then last ?B1 else Q)"
      using after left by (simp add: height_at_def FB)
    have A': "?F A = A"
      using A after left by (auto simp: filter_id_conv)
    show ?thesis
    proof (cases "?B2 \<noteq> [] \<and> point_x (hd ?B2) = right")
      case True
      then have "hd ?B2 \<in> set ?B2" "point_x (hd ?B2) \<le> c"
        using after by auto
      then have "hd ?B2 \<in> set (?F ?B2)"
        by simp
      then have ne: "?F ?B2 \<noteq> []"
        by (metis empty_iff empty_set)
      have "?T = ?B2"
        using True by (simp add: tail_after_def Let_def)
      then have "height_at (A @ [Point left bottom] @ ?T) c = point_y (last (?F ?B2))"
        using ne by (simp add: height_at_def)
      with ne old after left show ?thesis by simp
    next
      case False
      let ?R = "Point right (if ?B1 = [] then point_y Q else point_y (last ?B1))"
      from False after c have "?T = [?R] @ ?B2"
        by (auto simp: tail_after_def Let_def)
      then have "height_at (A @ [Point left bottom] @ ?T) c
          = point_y (if ?F ?B2 \<noteq> [] then last (?F ?B2) else ?R)"
        using after by (simp add: height_at_def)
      with old after left show ?thesis by simp
    qed
  qed
qed

lemma inside_integrated:
  assumes "inside W (A @ [Q] @ B)" "point_x Q = left"
  shows "inside W (A @ [Point left bottom] @ tail_after W right orig B)"
proof -
  from assms(1) have B: "\<forall>b\<in>set B. point_x b < W"
    by (cases A) (auto simp: inside_def)
  have T: "\<forall>t\<in>set (tail_after W right orig B). point_x t < W"
    using tail_after_inside [OF B] by blast
  show ?thesis
  proof (cases A)
    case Nil
    with T show ?thesis by (simp add: inside_def)
  next
    case (Cons a A')
    with assms T show ?thesis by (auto simp: inside_def)
  qed
qed

lemma skyline_ok_x_nonneg:
  assumes "skyline_ok W slices" "i < length slices"
  shows "0 \<le> point_x (slices ! i)"
proof -
  from assms have "point_x (slices ! 0) \<le> point_x (slices ! i)"
    by (intro increasing_nth_le) (auto simp: skyline_ok_def)
  moreover from assms have "slices \<noteq> []" "point_x (hd slices) = 0"
    by (simp_all add: skyline_ok_def)
  then have "point_x (slices ! 0) = 0"
    by (simp add: hd_conv_nth)
  ultimately show ?thesis by simp
qed

lemma first_slice_at:
  assumes inc: "increasing slices" and i: "i < length slices"
  obtains A Q B where "slices = A @ [Q] @ B" "\<forall>a\<in>set A. point_x a < point_x (slices ! i)"
    "point_x Q = point_x (slices ! i)"
proof -
  let ?P = "\<lambda>p. point_x p < point_x (slices ! i)"
  define A where "A = takeWhile ?P slices"
  define R where "R = dropWhile ?P slices"
  have split: "slices = A @ R" by (simp add: A_def R_def)
  have A: "\<forall>a\<in>set A. point_x a < point_x (slices ! i)"
    by (auto simp: A_def dest: set_takeWhileD)
  from i have "slices ! i \<in> set slices" by simp
  with A have mem: "slices ! i \<in> set R"
    unfolding split by auto
  then obtain Q B where R: "R = Q # B" by (cases R) auto
  from R have "dropWhile ?P slices \<noteq> []" "hd (dropWhile ?P slices) = Q"
    by (simp_all add: R_def)
  with hd_dropWhile [of ?P slices] have "\<not> ?P Q"
    by simp
  moreover from inc have "increasing R"
    unfolding split by (simp add: increasing_append)
  with mem have "point_x Q \<le> point_x (slices ! i)"
    by (auto simp: R increasing_Cons)
  ultimately have "point_x Q = point_x (slices ! i)" by simp
  with split A show ?thesis
    by (intro that [of A Q B]) (simp_all add: R)
qed

lemma TryPack_step:
  assumes ok: "skyline_ok (packingAreaWidth self) (heightSlices self)"
    and w: "0 \<le> w"
    and search: "tryFindBestPlacement self w h = Inr (Some p)"
    and fit: "w \<le> packingAreaWidth self"
  shows "\<exists>self'. integrateRectangle self (point_x p) w (point_y p + h) = Inr self'
           \<and> packingAreaWidth self' = packingAreaWidth self
           \<and> skyline_ok (packingAreaWidth self) (heightSlices self')
           \<and> (\<forall>c. c < packingAreaWidth self \<longrightarrow>
                 height_at (heightSlices self') c
                   = (if point_x p \<le> c \<and> c < point_x p + w then point_y p + h
                      else height_at (heightSlices self) c))"
    and "0 \<le> point_x p \<and> point_x p + w \<le> packingAreaWidth self"
    and "\<forall>c. point_x p \<le> c \<and> c < point_x p + w \<longrightarrow> height_at (heightSlices self) c \<le> point_y p"
proof -
  let ?s = "heightSlices self" and ?W = "packingAreaWidth self"
  from ok have inc: "increasing ?s" and ne: "?s \<noteq> []" and hd: "point_x (hd ?s) = 0"
    and ins: "inside ?W ?s"
    by (auto simp: skyline_ok_def)
  from tryFindBestPlacement_clear [OF ok w fit search]
  obtain i where i: "i < length ?s" and x: "point_x p = point_x (?s ! i)"
    and right: "point_x p + w \<le> ?W"
    and clear: "\<And>j. i \<le> j \<Longrightarrow> j < length ?s \<Longrightarrow> point_x (?s ! j) < point_x p + w
                  \<Longrightarrow> point_y (?s ! j) \<le> point_y p"
    by blast
  from skyline_ok_x_nonneg [OF ok i] x right
  show "0 \<le> point_x p \<and> point_x p + w \<le> ?W" by simp
  show "\<forall>c. point_x p \<le> c \<and> c < point_x p + w \<longrightarrow> height_at ?s c \<le> point_y p"
  proof (intro allI impI)
    fix c assume c: "point_x p \<le> c \<and> c < point_x p + w"
    with height_at_nth [OF inc i, of c] x
    obtain j where "i \<le> j" "j < length ?s" "point_x (?s ! j) \<le> c"
      "height_at ?s c = point_y (?s ! j)"
      by auto
    with clear [of j] c show "height_at ?s c \<le> point_y p" by simp
  qed
  from first_slice_at [OF inc i] x
  obtain A Q B where split: "?s = A @ [Q] @ B" and A: "\<forall>a\<in>set A. point_x a < point_x p"
    and Q: "point_x Q = point_x p"
    by metis
  let ?P = "Point (point_x p) (point_y p + h)"
  let ?T = "tail_after ?W (point_x p + w) (point_y Q) B"
  have inc': "increasing (A @ [Q] @ B)"
    using inc split by simp
  have integ: "integrateRectangle self (point_x p) w (point_y p + h)
      = Inr (self\<lparr>heightSlices := A @ [?P] @ ?T\<rparr>)"
    using split inc' A Q by (intro integrateRectangle_hit) simp_all
  from inc' have incA: "increasing A" and incB: "increasing B"
    by (auto simp: increasing_append increasing_Cons)
  have T: "\<forall>t\<in>set ?T. point_x p \<le> point_x t"
    using tail_after_ge [OF incB, of _ ?W "point_x p + w" "point_y Q"] w by fastforce
  have AT: "point_x a \<le> point_x t" if "a \<in> set A" "t \<in> set ?T" for a t
    using A T that by fastforce
  have "increasing (A @ [?P] @ ?T)"
    using incA tail_after_weakly_increasing [OF incB, of ?W "point_x p + w" "point_y Q"] A T AT
    by (auto simp: increasing_append increasing_Cons)
  moreover have "point_x (hd (A @ [?P] @ ?T)) = 0"
    using hd split Q by (cases A) auto
  moreover have "inside ?W (A @ [?P] @ ?T)"
    using ins split Q by (intro inside_integrated [where Q = Q]) simp_all
  ultimately have ok': "skyline_ok ?W (A @ [?P] @ ?T)"
    by (simp add: skyline_ok_def)
  have heights: "height_at (A @ [?P] @ ?T) c
       = (if point_x p \<le> c \<and> c < point_x p + w then point_y p + h else height_at ?s c)"
    if "c < ?W" for c
    using height_at_integrated [OF inc' A Q _ that, of "point_x p + w" "point_y p + h"] w
    by (simp add: split)
  show "\<exists>self'. integrateRectangle self (point_x p) w (point_y p + h) = Inr self'
           \<and> packingAreaWidth self' = ?W
           \<and> skyline_ok ?W (heightSlices self')
           \<and> (\<forall>c. c < ?W \<longrightarrow>
                 height_at (heightSlices self') c
                   = (if point_x p \<le> c \<and> c < point_x p + w then point_y p + h
                      else height_at ?s c))"
    using integ ok' heights by simp
qed

lemma disjoint_below:
  assumes "below_skyline W slices r"
    and "\<forall>c. point_x p \<le> c \<and> c < point_x p + w \<longrightarrow> height_at slices c \<le> point_y p"
  shows "disjoint_boxes r (p, w, h)"
proof -
  have False if "(a, b) \<in> box (fst r) (snd r)" "(a, b) \<in> box p (w, h)" for a b
  proof -
    from that(1) assms(1) have "b < height_at slices a"
      by (fastforce simp: box_def below_skyline_def)
    moreover from that(2) assms(2) have "height_at slices a \<le> b"
      by (fastforce simp: box_def)
    ultimately show False by simp
  qed
  then show ?thesis
    by (auto simp: disjoint_boxes_def)
qed

lemma TryPack_all_disjoint:
  assumes "skyline_ok (packingAreaWidth self) (heightSlices self)"
    and "\<forall>req\<in>set reqs. 0 \<le> fst req \<and> 0 \<le> snd req"
    and "\<forall>r\<in>set placed. below_skyline (packingAreaWidth self) (heightSlices self) r"
  shows "\<exists>placements final. TryPack_all self reqs = Inr (placements, final)
           \<and> sorted_wrt disjoint_boxes (committed reqs placements)
           \<and> (\<forall>r\<in>set placed. \<forall>c\<in>set (committed reqs placements). disjoint_boxes r c)"
  using assms
proof (induction reqs arbitrary: self placed)
  case Nil
  then show ?case by simp
next
  case (Cons req reqs)
  let ?W = "packingAreaWidth self" and ?s = "heightSlices self"
  obtain w h where req: "req = (w, h)" by (cases req)
  with Cons.prems(2) have w: "0 \<le> w" and h: "0 \<le> h"
    and rest: "\<forall>req\<in>set reqs. 0 \<le> fst req \<and> 0 \<le> snd req"
    by auto
  from Cons.prems(1) have "?s \<noteq> []" by (simp add: skyline_ok_def)
  from tryFindBestPlacement_total [OF this] obtain found
    where search: "tryFindBestPlacement self w h = Inr found"
    by blast
  show ?case
  proof (cases "w > ?W \<or> h > packingAreaHeight self \<or> found = None")
    case True
    with search have one: "TryPack self w h = Inr (None, self)"
      by (auto simp: TryPack_def)
    from Cons.IH [OF Cons.prems(1) rest Cons.prems(3)]
    obtain placements final where "TryPack_all self reqs = Inr (placements, final)"
      "sorted_wrt disjoint_boxes (committed reqs placements)"
      "\<forall>r\<in>set placed. \<forall>c\<in>set (committed reqs placements). disjoint_boxes r c"
      by blast
    with one show ?thesis
      by (intro exI [of _ "None # placements"] exI [of _ final]) (simp add: req)
  next
    case False
    then obtain p where p: "found = Some p" and fit: "w \<le> ?W" "h \<le> packingAreaHeight self"
      by auto
    note step = TryPack_step [OF Cons.prems(1) w search [unfolded p] fit(1)]
    from step(1) obtain self' where integ: "integrateRectangle self (point_x p) w (point_y p + h) = Inr self'"
      and same: "packingAreaWidth self' = ?W"
      and ok': "skyline_ok ?W (heightSlices self')"
      and heights: "\<And>c. c < ?W \<Longrightarrow> height_at (heightSlices self') c
                   = (if point_x p \<le> c \<and> c < point_x p + w then point_y p + h
                      else height_at ?s c)"
      by blast
    from search p fit integ have one: "TryPack self w h = Inr (Some p, self')"
      by (simp add: TryPack_def)
    have new_old: "disjoint_boxes r (p, w, h)" if "r \<in> set placed" for r
      using Cons.prems(3) that step(3) by (intro disjoint_below [where slices = ?s and W = ?W]) auto
    have grow: "height_at ?s c \<le> height_at (heightSlices self') c" if "c < ?W" for c
      using step(3) heights [OF that] h by auto
    have "below_skyline ?W (heightSlices self') r" if "r \<in> set placed" for r
    proof -
      from Cons.prems(3) that have b: "below_skyline ?W ?s r" by blast
      have "point_y (fst r) + snd (snd r) \<le> height_at (heightSlices self') c"
        if "point_x (fst r) \<le> c" "c < point_x (fst r) + fst (snd r)" for c
      proof -
        from b that have "c < ?W" "point_y (fst r) + snd (snd r) \<le> height_at ?s c"
          by (auto simp: below_skyline_def)
        with grow [of c] show ?thesis by simp
      qed
      with b show ?thesis by (simp add: below_skyline_def)
    qed
    moreover have "below_skyline ?W (heightSlices self') (p, w, h)"
      using step(2) heights by (auto simp: below_skyline_def)
    ultimately have placed': "\<forall>r\<in>set ((p, w, h) # placed).
        below_skyline (packingAreaWidth self') (heightSlices self') r"
      by (simp add: same)
    from Cons.IH [OF _ rest placed'] ok' same
    obtain placements final where all: "TryPack_all self' reqs = Inr (placements, final)"
      and sorted: "sorted_wrt disjoint_boxes (committed reqs placements)"
      and cross: "\<forall>r\<in>set ((p, w, h) # placed). \<forall>c\<in>set (committed reqs placements). disjoint_boxes r c"
      by auto
    show ?thesis
      using one all sorted cross new_old
      by (intro exI [of _ "Some p # placements"] exI [of _ final]) (auto simp: req)
  qed
qed

lemma TryPack_all_length:
  "TryPack_all self reqs = Inr (placements, final) \<Longrightarrow> length placements = length reqs"
proof (induction reqs arbitrary: self placements)
  case Nil
  then show ?case by simp
next
  case (Cons req reqs)
  obtain w h where req: "req = (w, h)" by (cases req)
  from Cons.prems obtain pl s rest where "TryPack_all s reqs = Inr (rest, final)"
    "placements = pl # rest"
    by (auto simp: req split: sum.splits prod.splits)
  with Cons.IH [of s rest] show ?case by simp
qed

lemma committed_member:
  assumes "length placements = length reqs" "j < length reqs" "placements ! j = Some q"
  shows "(q, reqs ! j) \<in> set (committed reqs placements)"
  using assms
proof (induction reqs placements arbitrary: j rule: committed.induct)
  case (1 req reqs p placements)
  then show ?case by (cases j) auto
next
  case (2 req reqs placements)
  then show ?case by (cases j) auto
qed auto

lemma committed_ordered:
  assumes "length placements = length reqs" "i < j" "j < length reqs"
    and "placements ! i = Some p" "placements ! j = Some q"
    and "sorted_wrt R (committed reqs placements)"
  shows "R (p, reqs ! i) (q, reqs ! j)"
  using assms
proof (induction reqs placements arbitrary: i j rule: committed.induct)
  case (1 req reqs p' placements)
  from "1.prems"(2) obtain j' where j: "j = Suc j'" by (cases j) auto
  show ?case
  proof (cases i)
    case 0
    with "1.prems" j have "(q, reqs ! j') \<in> set (committed reqs placements)"
      by (intro committed_member) auto
    with "1.prems" 0 j show ?thesis by auto
  next
    case (Suc i')
    with "1.prems" j "1.IH" [of i' j'] show ?thesis by auto
  qed
next
  case (2 req reqs placements)
  from "2.prems"(2) obtain j' where j: "j = Suc j'" by (cases j) auto
  show ?case
  proof (cases i)
    case 0
    with "2.prems" show ?thesis by simp
  next
    case (Suc i')
    with "2.prems" j "2.IH" [of i' j'] show ?thesis by auto
  qed
qed auto

lemma skyline_ok_init: "skyline_ok W (heightSlices (init W H))"
  by (simp add: skyline_ok_def inside_def init_def increasing_def)

lemma TryPack_all_fresh_disjoint:
  assumes dims: "\<forall>req\<in>set reqs. 0 \<le> fst req \<and> 0 \<le> snd req"
  shows "\<exists>placements final. TryPack_all (init W H) reqs = Inr (placements, final)
           \<and> sorted_wrt disjoint_boxes (committed reqs placements)"
proof -
  have "skyline_ok (packingAreaWidth (init W H)) (heightSlices (init W H))"
    using skyline_ok_init [of W H] by (simp add: init_def)
  from TryPack_all_disjoint [OF this dims, of "[]"] show ?thesis
    by auto
qed

text \<open>
  C2, amended. For every sequence of \<^verbatim>\<open>TryPack\<close> calls on a fresh packer in which
  every requested width is at least 0 and every requested height is at least 0, no call
  raises, and the boxes \<open>[x, x + w) \<times> [y, y + h)\<close> of any two successful calls are
  disjoint.
\<close>

theorem committed_boxes_disjoint:
  assumes "\<forall>req\<in>set reqs. 0 \<le> fst req \<and> 0 \<le> snd req"
  shows "\<exists>placements final. TryPack_all (init W H) reqs = Inr (placements, final)
           \<and> (\<forall>i j p q. i < j \<and> j < length reqs
                  \<and> placements ! i = Some p \<and> placements ! j = Some q
                \<longrightarrow> box p (reqs ! i) \<inter> box q (reqs ! j) = {})"
proof -
  from TryPack_all_fresh_disjoint [OF assms, of W H]
  obtain placements final where run: "TryPack_all (init W H) reqs = Inr (placements, final)"
    and sorted: "sorted_wrt disjoint_boxes (committed reqs placements)"
    by blast
  note len = TryPack_all_length [OF run]
  have "box p (reqs ! i) \<inter> box q (reqs ! j) = {}"
    if "i < j" "j < length reqs" "placements ! i = Some p" "placements ! j = Some q" for i j p q
    using committed_ordered [OF len that sorted] by (simp add: disjoint_boxes_def)
  with run show ?thesis by blast
qed

theorem committed_boxes_disjoint_witness:
  "list_all (\<lambda>req. 0 \<le> fst req \<and> 0 \<le> snd req) [(4, 3), (0, 2), (4::int, 3::int)]
   \<and> TryPack_all (init 10 10) [(4, 3), (0, 2), (4, 3)]
       = Inr ([Some (Point 0 0), Some (Point 4 0), Some (Point 4 0)],
              \<lparr>packingAreaWidth = 10, packingAreaHeight = 10,
                 heightSlices = [Point 0 3, Point 4 3, Point 8 0]\<rparr>)
   \<and> box (Point 0 0) (4, 3) \<inter> box (Point 4 0) (0, 2) = {}
   \<and> box (Point 0 0) (4, 3) \<inter> box (Point 4 0) (4, 3) = {}
   \<and> box (Point 4 0) (0, 2) \<inter> box (Point 4 0) (4, 3) = {}"
proof -
  let ?reqs = "[(4, 3), (0, 2), (4::int, 3::int)]"
  let ?pls = "[Some (Point 0 0), Some (Point 4 0), Some (Point 4 0)]"
  have run: "TryPack_all (init 10 10) ?reqs
       = Inr (?pls, \<lparr>packingAreaWidth = 10, packingAreaHeight = 10,
                 heightSlices = [Point 0 3, Point 4 3, Point 8 0]\<rparr>)"
    by code_simp
  have "\<forall>req\<in>set ?reqs. 0 \<le> fst req \<and> 0 \<le> snd req" by simp
  from committed_boxes_disjoint [OF this, of 10 10]
  have disj: "\<And>i j p q. i < j \<Longrightarrow> j < length ?reqs \<Longrightarrow> ?pls ! i = Some p \<Longrightarrow> ?pls ! j = Some q
                 \<Longrightarrow> box p (?reqs ! i) \<inter> box q (?reqs ! j) = {}"
    unfolding run by blast
  from disj [of 0 1] disj [of 0 2] disj [of 1 2] run show ?thesis
    by simp
qed

text \<open>
  C2, as stated, fails when a dimension is negative. With a negative height the
  silhouette sinks: after (4, 3) and (10, -3) the third call (4, 3) is placed at (0, 0)
  again. With a negative width a breakpoint is left at a negative x: after (1, 1) and
  (-2, 1) the call (2, 1) is placed at (-1, 0), across the first rectangle.
\<close>

theorem committed_boxes_disjoint_counterexample:
  "map_sum id fst (TryPack_all (init 10 10) [(4, 3), (10, - 3), (4, 3)])
     = Inr [Some (Point 0 0), Some (Point 0 3), Some (Point 0 0)]
   \<and> (1, 1) \<in> box (Point 0 0) (4, 3) \<inter> box (Point 0 0) (4, 3)
   \<and> map_sum id fst (TryPack_all (init 6 6) [(1, 1), (- 2, 1), (2, 1)])
     = Inr [Some (Point 0 0), Some (Point 1 0), Some (Point (- 1) 0)]
   \<and> (0, 0) \<in> box (Point 0 0) (1, 1) \<inter> box (Point (- 1) 0) (2, 1)"
proof -
  have "map_sum id fst (TryPack_all (init 10 10) [(4, 3), (10, - 3), (4, 3)])
     = Inr [Some (Point 0 0), Some (Point 0 3), Some (Point 0 0)]"
    by code_simp
  moreover have "map_sum id fst (TryPack_all (init 6 6) [(1, 1), (- 2, 1), (2, 1)])
     = Inr [Some (Point 0 0), Some (Point 1 0), Some (Point (- 1) 0)]"
    by code_simp
  ultimately show ?thesis
    by (simp add: box_def)
qed

section \<open>A placement at the right edge of the area\<close>

text \<open>
  C1. On a 10 by 10 packer holding one 5 by 3 rectangle at (0, 0), the profile is
  (0, 3), (5, 0). A second 5 by 3 rectangle could stand at (5, 0): the span [5, 10) is
  inside the area, 0 + 3 < 10, and the columns 5 to 9 have height 0. The search answers
  (0, 3): after the first slice it computes \<open>rightRectangleEnd = 5 + 5 = 10\<close>, and since
  \<open>packingAreaWidth > rightRectangleEnd\<close> is false it takes the rectangle to have left
  the area and stops without looking at slice 1.
\<close>

theorem search_misses_right_edge:
  "TryPack (init 10 10) 5 3
     = Inr (Some (Point 0 0),
            \<lparr>packingAreaWidth = 10, packingAreaHeight = 10, heightSlices = [Point 0 3, Point 5 0]\<rparr>)
   \<and> TryPack \<lparr>packingAreaWidth = 10, packingAreaHeight = 10, heightSlices = [Point 0 3, Point 5 0]\<rparr> 5 3
     = Inr (Some (Point 0 3),
            \<lparr>packingAreaWidth = 10, packingAreaHeight = 10, heightSlices = [Point 0 6, Point 5 0]\<rparr>)
   \<and> placement_free
         \<lparr>packingAreaWidth = 10, packingAreaHeight = 10, heightSlices = [Point 0 3, Point 5 0]\<rparr>
         5 3 5 0
   \<and> (0::int) < point_y (Point 0 3)"
  by code_simp

end
